theory Spec2Isabelle
  imports Main "HOL-Library.Word" "HOL-Library.Log_Nat"
begin

unbundle bit_operations_syntax

section \<open>The token stream parser of tedious (src/token/stream-parser.ts)\<close>

text \<open>
  The parser is a Node transform stream written in continuation-passing style: a token
  decoder asks for bytes with \<open>awaitData(length, callback)\<close>, and when the bytes are not
  there yet the parser stores the closure \<open>() => this.awaitData(length, callback)\<close> in
  \<open>this.next\<close> and returns. A closure stored inside the state it acts on cannot be a
  HOL function of that state, so closures are first-order values here: a \<open>prog\<close> is the
  body of a callback, one constructor for each thing such a body does to the parser.
\<close>

subsection \<open>Bytes, Node buffers and JavaScript numbers\<close>

type_synonym byte = "8 word"

text \<open>A JavaScript string is a sequence of UTF-16 code units.\<close>

type_synonym jsstring = "16 word list"

datatype jserror = UnknownType nat | RangeError | TypeError

datatype outcome = Returned | Threw jserror

text \<open>
  Node's \<open>Buffer\<close> API, which the source calls and does not define. The \<open>read*\<close> methods
  throw a RangeError when the field does not lie inside the buffer (\<open>None\<close> here);
  \<open>buf[i]\<close> is \<open>undefined\<close> out of range (\<open>None\<close>); \<open>slice\<close> clamps its bounds.
\<close>

definition buf_index :: "byte list \<Rightarrow> nat \<Rightarrow> byte option" where
  "buf_index buf i = (if i < length buf then Some (buf ! i) else None)"

definition buf_slice :: "byte list \<Rightarrow> nat \<Rightarrow> nat \<Rightarrow> byte list" where
  "buf_slice buf start stop = take (stop - start) (drop start buf)"

definition buf_slice_from :: "byte list \<Rightarrow> nat \<Rightarrow> byte list" where
  "buf_slice_from buf start = drop start buf"

text \<open>The unsigned little-endian value of a byte sequence.\<close>

fun le_value :: "byte list \<Rightarrow> nat" where
  "le_value [] = 0"
| "le_value (b # bs) = unat b + 256 * le_value bs"

definition buf_readUIntLE :: "nat \<Rightarrow> byte list \<Rightarrow> nat \<Rightarrow> nat option" where
  "buf_readUIntLE n buf offset =
     (if offset + n \<le> length buf then Some (le_value (take n (drop offset buf))) else None)"

definition buf_readUInt8 :: "byte list \<Rightarrow> nat \<Rightarrow> nat option" where
  "buf_readUInt8 = buf_readUIntLE 1"

definition buf_readUInt16LE :: "byte list \<Rightarrow> nat \<Rightarrow> nat option" where
  "buf_readUInt16LE = buf_readUIntLE 2"

definition buf_readUInt32LE :: "byte list \<Rightarrow> nat \<Rightarrow> nat option" where
  "buf_readUInt32LE = buf_readUIntLE 4"

text \<open>Two's complement reading of an unsigned 32-bit value.\<close>

definition to_int32 :: "nat \<Rightarrow> int" where
  "to_int32 u = (if u < 2 ^ 31 then int u else int u - 2 ^ 32)"

definition buf_readInt32LE :: "byte list \<Rightarrow> nat \<Rightarrow> int option" where
  "buf_readInt32LE buf offset = map_option to_int32 (buf_readUInt32LE buf offset)"

text \<open>\<open>buf.toString('ucs2')\<close>: each pair of bytes is one code unit, low byte first; a
  trailing odd byte is dropped.\<close>

fun ucs2 :: "byte list \<Rightarrow> jsstring" where
  "ucs2 (lo # hi # bs) = (word_of_nat (unat lo + 256 * unat hi)) # ucs2 bs"
| "ucs2 _ = []"

text \<open>
  A JavaScript number is an IEEE double. Every number the integer readers compute is an
  integer, and the sum or product of two integer-valued doubles is the exact result
  rounded to the nearest double (53 significant bits, ties to even). \<open>js_round\<close> is that
  rounding on the integers; nothing here exceeds \<open>2 ^ 128\<close>, far from overflow.
\<close>

definition js_round :: "int \<Rightarrow> int" where
  "js_round x =
     (let a = \<bar>x\<bar> in
      if a \<le> 2 ^ 53 then x
      else
        let e = nat (bitlen a - 53);
            q = a div 2 ^ e;
            r = a mod 2 ^ e;
            q' = (if 2 * r > 2 ^ e \<or> (2 * r = 2 ^ e \<and> odd q) then q + 1 else q)
        in sgn x * (q' * 2 ^ e))"

definition js_add :: "int \<Rightarrow> int \<Rightarrow> int" where
  "js_add a b = js_round (a + b)"

definition js_mul :: "int \<Rightarrow> int \<Rightarrow> int" where
  "js_mul a b = js_round (a * b)"

text \<open>\<open>low | (high << 16)\<close>: both operands go through ToInt32, the result is a signed
  32-bit integer.\<close>

definition js_or_shl16 :: "nat \<Rightarrow> nat \<Rightarrow> int" where
  "js_or_shl16 low high =
     sint ((word_of_nat low :: 32 word) OR push_bit 16 (word_of_nat high :: 32 word))"

text \<open>\<open>(b & 0x80) === 0x80\<close>, where \<open>undefined & 0x80\<close> is 0.\<close>

definition js_bit7_set :: "byte option \<Rightarrow> bool" where
  "js_bit7_set b = (case b of None \<Rightarrow> False | Some v \<Rightarrow> v AND 0x80 = 0x80)"

subsection \<open>Tokens\<close>

text \<open>
  The \<open>Token\<close> union of the source, one constructor for each \<open>name\<close>. The parser looks
  at the name and at the \<open>columns\<close> of a COLMETADATA token only; \<open>'c\<close> is the type of that
  column payload (\<open>any\<close> in the source) and \<open>'p\<close> stands for the fields of the other
  tokens, which the token decoders fill in and the parser passes on untouched.
\<close>

datatype ('c, 'p) token =
    COLMETADATA (columns: 'c)
  | DONE 'p
  | DONEINPROC 'p
  | DONEPROC 'p
  | ENVCHANGE 'p
  | FEATUREEXTACK 'p
  | FEDAUTHINFO 'p
  | INFO 'p
  | ERROR 'p
  | LOGINACK 'p
  | NBCROW 'p
  | ORDER 'p
  | RETURNSTATUS 'p
  | RETURNVALUE 'p
  | ROW 'p
  | SSPICHALLENGE 'p
  | EOM

subsection \<open>Callbacks as programs\<close>

text \<open>
  The body of a callback, in the tail-calling style of the source:
  \<^item> \<open>Return\<close>: the body ends;
  \<^item> \<open>Throw e\<close>: it throws;
  \<^item> \<open>CallDone t p\<close>: it calls the completion callback \<open>done(t)\<close> of \<open>parseTokens\<close>
    (\<open>None\<close> is a falsy token) and goes on as \<open>p\<close>;
  \<^item> \<open>Advance n p\<close>: \<open>this.position += n\<close>, then \<open>p\<close>;
  \<^item> \<open>AwaitData length callback\<close>: it calls \<open>this.awaitData(length, callback)\<close>, where
    the callback may read \<open>this.buffer\<close> and \<open>this.position\<close>.
\<close>

datatype ('c, 'p) prog =
    Return
  | Throw jserror
  | CallDone "('c, 'p) token option" "('c, 'p) prog"
  | Advance nat "('c, 'p) prog"
  | AwaitData nat "byte list \<Rightarrow> nat \<Rightarrow> ('c, 'p) prog"

subsection \<open>The parser state\<close>

text \<open>
  The fields of \<open>Parser\<close>, and of the stream it extends: \<open>emitted\<close> is what \<open>push\<close> has
  handed to the readable side, \<open>errors\<close> the 'error' events delivered to listeners,
  \<open>errorListener\<close> whether there is one (Node's \<open>emit('error', e)\<close> throws \<open>e\<close> when
  there is none).
\<close>

record ('c, 'p, 'o) parser =
  colMetadata :: 'c
  options :: 'o
  buffer :: "byte list"
  position :: nat
  suspended :: bool
  "next" :: "('c, 'p) prog option"
  emitted :: "('c, 'p) token list"
  errors :: "jserror list"
  errorListener :: bool

definition new_parser :: "'c \<Rightarrow> 'o \<Rightarrow> bool \<Rightarrow> ('c, 'p, 'o) parser" where
  "new_parser cm opts listener =
     \<lparr> colMetadata = cm, options = opts, buffer = [], position = 0, suspended = False,
       next = None, emitted = [], errors = [], errorListener = listener \<rparr>"

definition push :: "('c, 'p) token \<Rightarrow> ('c, 'p, 'o) parser \<Rightarrow> ('c, 'p, 'o) parser" where
  "push t s = s\<lparr>emitted := emitted s @ [t]\<rparr>"

definition emit_error :: "jserror \<Rightarrow> ('c, 'p, 'o) parser \<Rightarrow> outcome \<times> ('c, 'p, 'o) parser" where
  "emit_error e s =
     (if errorListener s then (Returned, s\<lparr>errors := errors s @ [e]\<rparr>) else (Threw e, s))"

text \<open>The closure \<open>doneParsing\<close> of \<open>parseTokens\<close>.\<close>

definition doneParsing :: "('c, 'p) token option \<Rightarrow> ('c, 'p, 'o) parser \<Rightarrow> ('c, 'p, 'o) parser" where
  "doneParsing token s =
     (case token of
        None \<Rightarrow> s
      | Some t \<Rightarrow>
          push t (case t of COLMETADATA cols \<Rightarrow> s\<lparr>colMetadata := cols\<rparr> | _ \<Rightarrow> s))"

definition suspend :: "('c, 'p) prog \<Rightarrow> ('c, 'p, 'o) parser \<Rightarrow> ('c, 'p, 'o) parser" where
  "suspend nxt s = s\<lparr>suspended := True, next := Some nxt\<rparr>"

text \<open>
  Running a callback body. The \<open>AwaitData\<close> case is the method \<open>awaitData\<close>: the stored
  continuation \<open>() => this.awaitData(length, callback)\<close> is the program
  \<open>AwaitData length callback\<close> itself.
\<close>

primrec exec :: "('c, 'p) prog \<Rightarrow> ('c, 'p, 'o) parser \<Rightarrow> outcome \<times> ('c, 'p, 'o) parser" where
  "exec Return s = (Returned, s)"
| "exec (Throw e) s = (Threw e, s)"
| "exec (CallDone token p) s = exec p (doneParsing token s)"
| "exec (Advance n p) s = exec p (s\<lparr>position := position s + n\<rparr>)"
| "exec (AwaitData len callback) s =
     (if position s + len \<le> length (buffer s)
      then exec (callback (buffer s) (position s)) s
      else (Returned, suspend (AwaitData len callback) s))"

definition awaitData ::
  "nat \<Rightarrow> (byte list \<Rightarrow> nat \<Rightarrow> ('c, 'p) prog) \<Rightarrow> ('c, 'p, 'o) parser \<Rightarrow> outcome \<times> ('c, 'p, 'o) parser" where
  "awaitData len callback s = exec (AwaitData len callback) s"

subsection \<open>The readers\<close>

text \<open>Each reader awaits its bytes, reads them at the cursor, moves the cursor and hands
  the value to its callback.\<close>

definition readUInt8 :: "(nat \<Rightarrow> ('c, 'p) prog) \<Rightarrow> ('c, 'p) prog" where
  "readUInt8 callback =
     AwaitData 1 (\<lambda>buf pos.
       case buf_readUInt8 buf pos of
         None \<Rightarrow> Throw RangeError
       | Some data \<Rightarrow> Advance 1 (callback data))"

definition readUInt16LE :: "(nat \<Rightarrow> ('c, 'p) prog) \<Rightarrow> ('c, 'p) prog" where
  "readUInt16LE callback =
     AwaitData 2 (\<lambda>buf pos.
       case buf_readUInt16LE buf pos of
         None \<Rightarrow> Throw RangeError
       | Some data \<Rightarrow> Advance 2 (callback data))"

definition readInt32LE :: "(int \<Rightarrow> ('c, 'p) prog) \<Rightarrow> ('c, 'p) prog" where
  "readInt32LE callback =
     AwaitData 4 (\<lambda>buf pos.
       case buf_readInt32LE buf pos of
         None \<Rightarrow> Throw RangeError
       | Some data \<Rightarrow> Advance 4 (callback data))"

definition readUInt32LE :: "(nat \<Rightarrow> ('c, 'p) prog) \<Rightarrow> ('c, 'p) prog" where
  "readUInt32LE callback =
     AwaitData 4 (\<lambda>buf pos.
       case buf_readUInt32LE buf pos of
         None \<Rightarrow> Throw RangeError
       | Some data \<Rightarrow> Advance 4 (callback data))"

definition readInt64LE :: "(int \<Rightarrow> ('c, 'p) prog) \<Rightarrow> ('c, 'p) prog" where
  "readInt64LE callback =
     AwaitData 8 (\<lambda>buf pos.
       case buf_readInt32LE buf (pos + 4) of
         None \<Rightarrow> Throw RangeError
       | Some high \<Rightarrow>
           let sign = (if js_bit7_set (buf_index buf (pos + 4)) then 1 else - 1) in
           case buf_readUInt32LE buf pos of
             None \<Rightarrow> Throw RangeError
           | Some low \<Rightarrow>
               Advance 8 (callback (js_add (js_mul (2 ^ 32) high) (js_mul sign (int low)))))"

definition readUInt64LE :: "(int \<Rightarrow> ('c, 'p) prog) \<Rightarrow> ('c, 'p) prog" where
  "readUInt64LE callback =
     AwaitData 8 (\<lambda>buf pos.
       case buf_readUInt32LE buf (pos + 4) of
         None \<Rightarrow> Throw RangeError
       | Some high \<Rightarrow>
           case buf_readUInt32LE buf pos of
             None \<Rightarrow> Throw RangeError
           | Some low \<Rightarrow>
               Advance 8 (callback (js_add (js_mul (2 ^ 32) (int high)) (int low))))"

definition readUInt24LE :: "(int \<Rightarrow> ('c, 'p) prog) \<Rightarrow> ('c, 'p) prog" where
  "readUInt24LE callback =
     AwaitData 3 (\<lambda>buf pos.
       case buf_readUInt16LE buf pos of
         None \<Rightarrow> Throw RangeError
       | Some low \<Rightarrow>
           case buf_readUInt8 buf (pos + 2) of
             None \<Rightarrow> Throw RangeError
           | Some high \<Rightarrow> Advance 3 (callback (js_or_shl16 low high)))"

definition readUInt40LE :: "(int \<Rightarrow> ('c, 'p) prog) \<Rightarrow> ('c, 'p) prog" where
  "readUInt40LE callback =
     AwaitData 5 (\<lambda>buf pos.
       case buf_readUInt32LE buf pos of
         None \<Rightarrow> Throw RangeError
       | Some low \<Rightarrow>
           case buf_readUInt8 buf (pos + 4) of
             None \<Rightarrow> Throw RangeError
           | Some high \<Rightarrow>
               Advance 5 (callback (js_add (js_mul 0x100000000 (int high)) (int low))))"

definition readUNumeric64LE :: "(int \<Rightarrow> ('c, 'p) prog) \<Rightarrow> ('c, 'p) prog" where
  "readUNumeric64LE callback =
     AwaitData 8 (\<lambda>buf pos.
       case buf_readUInt32LE buf pos of
         None \<Rightarrow> Throw RangeError
       | Some low \<Rightarrow>
           case buf_readUInt32LE buf (pos + 4) of
             None \<Rightarrow> Throw RangeError
           | Some high \<Rightarrow>
               Advance 8 (callback (js_add (js_mul 0x100000000 (int high)) (int low))))"

definition readUNumeric96LE :: "(int \<Rightarrow> ('c, 'p) prog) \<Rightarrow> ('c, 'p) prog" where
  "readUNumeric96LE callback =
     AwaitData 12 (\<lambda>buf pos.
       case buf_readUInt32LE buf pos of
         None \<Rightarrow> Throw RangeError
       | Some dword1 \<Rightarrow>
           case buf_readUInt32LE buf (pos + 4) of
             None \<Rightarrow> Throw RangeError
           | Some dword2 \<Rightarrow>
               case buf_readUInt32LE buf (pos + 8) of
                 None \<Rightarrow> Throw RangeError
               | Some dword3 \<Rightarrow>
                   Advance 12 (callback
                     (js_add (js_add (int dword1) (js_mul 0x100000000 (int dword2)))
                        (js_mul (js_mul 0x100000000 0x100000000) (int dword3)))))"

definition readUNumeric128LE :: "(int \<Rightarrow> ('c, 'p) prog) \<Rightarrow> ('c, 'p) prog" where
  "readUNumeric128LE callback =
     AwaitData 16 (\<lambda>buf pos.
       case buf_readUInt32LE buf pos of
         None \<Rightarrow> Throw RangeError
       | Some dword1 \<Rightarrow>
           case buf_readUInt32LE buf (pos + 4) of
             None \<Rightarrow> Throw RangeError
           | Some dword2 \<Rightarrow>
               case buf_readUInt32LE buf (pos + 8) of
                 None \<Rightarrow> Throw RangeError
               | Some dword3 \<Rightarrow>
                   case buf_readUInt32LE buf (pos + 12) of
                     None \<Rightarrow> Throw RangeError
                   | Some dword4 \<Rightarrow>
                       Advance 16 (callback
                         (js_add
                            (js_add (js_add (int dword1) (js_mul 0x100000000 (int dword2)))
                               (js_mul (js_mul 0x100000000 0x100000000) (int dword3)))
                            (js_mul (js_mul (js_mul 0x100000000 0x100000000) 0x100000000)
                               (int dword4)))))"

definition readBuffer :: "nat \<Rightarrow> (byte list \<Rightarrow> ('c, 'p) prog) \<Rightarrow> ('c, 'p) prog" where
  "readBuffer len callback =
     AwaitData len (\<lambda>buf pos. Advance len (callback (buf_slice buf pos (pos + len))))"

definition readBVarChar :: "(jsstring \<Rightarrow> ('c, 'p) prog) \<Rightarrow> ('c, 'p) prog" where
  "readBVarChar callback =
     readUInt8 (\<lambda>len. readBuffer (len * 2) (\<lambda>data. callback (ucs2 data)))"

definition readUsVarChar :: "(jsstring \<Rightarrow> ('c, 'p) prog) \<Rightarrow> ('c, 'p) prog" where
  "readUsVarChar callback =
     readUInt16LE (\<lambda>len. readBuffer (len * 2) (\<lambda>data. callback (ucs2 data)))"

definition readBVarByte :: "(byte list \<Rightarrow> ('c, 'p) prog) \<Rightarrow> ('c, 'p) prog" where
  "readBVarByte callback = readUInt8 (\<lambda>len. readBuffer len callback)"

definition readUsVarByte :: "(byte list \<Rightarrow> ('c, 'p) prog) \<Rightarrow> ('c, 'p) prog" where
  "readUsVarByte callback = readUInt16LE (\<lambda>len. readBuffer len callback)"

subsection \<open>The dispatch loop and the transform\<close>

text \<open>
  The registry \<open>tokenParsers\<close> maps a tag to a decoder. The decoders are other modules:
  they are a parameter here, a decoder being the program it runs for a given column
  metadata and options (the parser and the completion callback are what the constructors
  of \<open>prog\<close> act on).
\<close>

type_synonym ('c, 'p, 'o) registry = "nat \<Rightarrow> ('c \<Rightarrow> 'o \<Rightarrow> ('c, 'p) prog) option"

lemma prog_induct [case_names Return Throw CallDone Advance AwaitData]:
  assumes "P Return"
    and "\<And>e. P (Throw e)"
    and "\<And>t p. P p \<Longrightarrow> P (CallDone t p)"
    and "\<And>n p. P p \<Longrightarrow> P (Advance n p)"
    and "\<And>n callback. (\<And>buf pos. P (callback buf pos)) \<Longrightarrow> P (AwaitData n callback)"
  shows "P p"
proof (induction p)
  case (AwaitData n callback)
  have "P (callback buf pos)" for buf pos
    by (rule AwaitData) (rule rangeI, rule rangeI)
  then show ?case by (rule assms(5))
qed (auto intro: assms)

lemma doneParsing_fields [simp]:
  "buffer (doneParsing t s) = buffer s"
  "position (doneParsing t s) = position s"
  "suspended (doneParsing t s) = suspended s"
  "next (doneParsing t s) = next s"
  "errors (doneParsing t s) = errors s"
  "errorListener (doneParsing t s) = errorListener s"
  "options (doneParsing t s) = options s"
  by (auto simp: doneParsing_def push_def split: option.splits token.splits)

lemma exec_buffer: "buffer (snd (exec p s)) = buffer s"
  by (induction p arbitrary: s rule: prog_induct) (simp_all add: suspend_def)

lemma exec_position: "position s \<le> position (snd (exec p s))"
proof (induction p arbitrary: s rule: prog_induct)
  case (CallDone t p)
  from CallDone [of "doneParsing t s"] show ?case by simp
next
  case (Advance n p)
  from Advance [of "s\<lparr>position := position s + n\<rparr>"] show ?case by simp
qed (simp_all add: suspend_def)

function parseTokens ::
  "('c, 'p, 'o) registry \<Rightarrow> ('c, 'p, 'o) parser \<Rightarrow> outcome \<times> ('c, 'p, 'o) parser" where
  "parseTokens reg s =
     (if \<not> suspended s \<and> position s + 1 \<le> length (buffer s) then
        (case buf_readUInt8 (buffer s) (position s) of
           None \<Rightarrow> (Threw RangeError, s)
         | Some type \<Rightarrow>
             let s1 = s\<lparr>position := position s + 1\<rparr> in
             (case reg type of
                Some decoder \<Rightarrow>
                  (case exec (decoder (colMetadata s1) (options s1)) s1 of
                     (Returned, s2) \<Rightarrow> parseTokens reg s2
                   | (Threw e, s2) \<Rightarrow> (Threw e, s2))
              | None \<Rightarrow>
                  (case emit_error (UnknownType type) s1 of
                     (Returned, s2) \<Rightarrow> parseTokens reg s2
                   | (Threw e, s2) \<Rightarrow> (Threw e, s2))))
      else (Returned, s))"
  by pat_completeness auto
termination
proof (relation "measure (\<lambda>(reg, s). length (buffer s) - position s)", goal_cases)
  case 1
  show ?case by simp
next
  case (2 reg s type s1 o2 s2)
  then show ?case by (auto simp: emit_error_def split: if_splits)
next
  case (3 reg s type s1 decoder o2 s2)
  have "buffer s2 = buffer s1" "position s1 \<le> position s2"
    using exec_buffer [of "decoder (colMetadata s1) (options s1)" s1]
      exec_position [of s1 "decoder (colMetadata s1) (options s1)"] 3(5) [symmetric]
    by simp_all
  with 3(1,3) show ?case by simp linarith
qed

datatype chunk = Data "byte list" | EndOfMessageMarker

text \<open>The first statements of the byte branch of \<open>_transform\<close>: the new chunk joins what is
  left of the buffer.\<close>

definition accumulate :: "byte list \<Rightarrow> ('c, 'p, 'o) parser \<Rightarrow> ('c, 'p, 'o) parser" where
  "accumulate input s =
     (let s1 =
        (if position s = length (buffer s) then s\<lparr>buffer := input\<rparr>
         else s\<lparr>buffer := buf_slice_from (buffer s) (position s) @ input\<rparr>)
      in s1\<lparr>position := 0\<rparr>)"

definition resume :: "('c, 'p, 'o) parser \<Rightarrow> outcome \<times> ('c, 'p, 'o) parser" where
  "resume s =
     (if suspended s then
        (let s1 = s\<lparr>suspended := False\<rparr> in
         case next s1 of
           None \<Rightarrow> (Threw TypeError, s1)
         | Some k \<Rightarrow> exec k s1)
      else (Returned, s))"

definition transform ::
  "('c, 'p, 'o) registry \<Rightarrow> chunk \<Rightarrow> ('c, 'p, 'o) parser \<Rightarrow> outcome \<times> ('c, 'p, 'o) parser" where
  "transform reg input s =
     (case input of
        EndOfMessageMarker \<Rightarrow> (Returned, push EOM s)
      | Data bytes \<Rightarrow>
          (case resume (accumulate bytes s) of
             (Threw e, s2) \<Rightarrow> (Threw e, s2)
           | (Returned, s2) \<Rightarrow>
               if \<not> suspended s2 then parseTokens reg s2 else (Returned, s2)))"

text \<open>Writing chunks to the stream one after the other; an exception ends it.\<close>

fun feed ::
  "('c, 'p, 'o) registry \<Rightarrow> chunk list \<Rightarrow> ('c, 'p, 'o) parser \<Rightarrow> outcome \<times> ('c, 'p, 'o) parser" where
  "feed reg [] s = (Returned, s)"
| "feed reg (c # cs) s =
     (case transform reg c s of
        (Returned, s') \<Rightarrow> feed reg cs s'
      | (Threw e, s') \<Rightarrow> (Threw e, s'))"

subsection \<open>What the consumer is handed\<close>

text \<open>
  \<open>this.push(token)\<close> hands the token to the consumer of the stream, who can look at the
  parser at that moment. The functions below list, for a call of each function of the
  parser, the tokens handed over with the column metadata the parser holds at the moment
  of the \<open>push\<close>: a hand-over is the token and the \<open>colMetadata\<close> seen with it. In
  \<open>doneParsing\<close> the \<open>switch\<close> comes first and the \<open>push\<close> second, so the state pushed
  from is the one after the \<open>switch\<close>. The states themselves are those of \<open>exec\<close>,
  \<open>parseTokens\<close>, \<open>resume\<close>, \<open>transform\<close> and \<open>feed\<close>.
\<close>

type_synonym ('c, 'p) handover = "('c, 'p) token \<times> 'c"

definition push_handovers :: "('c, 'p) token \<Rightarrow> ('c, 'p, 'o) parser \<Rightarrow> ('c, 'p) handover list" where
  "push_handovers t s = [(t, colMetadata s)]"

definition doneParsing_handovers ::
  "('c, 'p) token option \<Rightarrow> ('c, 'p, 'o) parser \<Rightarrow> ('c, 'p) handover list" where
  "doneParsing_handovers token s =
     (case token of
        None \<Rightarrow> []
      | Some t \<Rightarrow>
          push_handovers t (case t of COLMETADATA cols \<Rightarrow> s\<lparr>colMetadata := cols\<rparr> | _ \<Rightarrow> s))"

primrec exec_handovers :: "('c, 'p) prog \<Rightarrow> ('c, 'p, 'o) parser \<Rightarrow> ('c, 'p) handover list" where
  "exec_handovers Return s = []"
| "exec_handovers (Throw e) s = []"
| "exec_handovers (CallDone token p) s =
     doneParsing_handovers token s @ exec_handovers p (doneParsing token s)"
| "exec_handovers (Advance n p) s = exec_handovers p (s\<lparr>position := position s + n\<rparr>)"
| "exec_handovers (AwaitData len callback) s =
     (if position s + len \<le> length (buffer s)
      then exec_handovers (callback (buffer s) (position s)) s
      else [])"

function parseTokens_handovers ::
  "('c, 'p, 'o) registry \<Rightarrow> ('c, 'p, 'o) parser \<Rightarrow> ('c, 'p) handover list" where
  "parseTokens_handovers reg s =
     (if \<not> suspended s \<and> position s + 1 \<le> length (buffer s) then
        (case buf_readUInt8 (buffer s) (position s) of
           None \<Rightarrow> []
         | Some type \<Rightarrow>
             let s1 = s\<lparr>position := position s + 1\<rparr> in
             (case reg type of
                Some decoder \<Rightarrow>
                  exec_handovers (decoder (colMetadata s1) (options s1)) s1 @
                  (case exec (decoder (colMetadata s1) (options s1)) s1 of
                     (Returned, s2) \<Rightarrow> parseTokens_handovers reg s2
                   | (Threw e, s2) \<Rightarrow> [])
              | None \<Rightarrow>
                  (case emit_error (UnknownType type) s1 of
                     (Returned, s2) \<Rightarrow> parseTokens_handovers reg s2
                   | (Threw e, s2) \<Rightarrow> [])))
      else [])"
  by pat_completeness auto
termination
proof (relation "measure (\<lambda>(reg, s). length (buffer s) - position s)", goal_cases)
  case 1
  show ?case by simp
next
  case (2 reg s type s1 o2 s2)
  then show ?case by (auto simp: emit_error_def split: if_splits)
next
  case (3 reg s type s1 decoder o2 s2)
  have "buffer s2 = buffer s1" "position s1 \<le> position s2"
    using exec_buffer [of "decoder (colMetadata s1) (options s1)" s1]
      exec_position [of s1 "decoder (colMetadata s1) (options s1)"] 3(5) [symmetric]
    by simp_all
  with 3(1,3) show ?case by simp linarith
qed

definition resume_handovers :: "('c, 'p, 'o) parser \<Rightarrow> ('c, 'p) handover list" where
  "resume_handovers s =
     (if suspended s then
        (let s1 = s\<lparr>suspended := False\<rparr> in
         case next s1 of
           None \<Rightarrow> []
         | Some k \<Rightarrow> exec_handovers k s1)
      else [])"

definition transform_handovers ::
  "('c, 'p, 'o) registry \<Rightarrow> chunk \<Rightarrow> ('c, 'p, 'o) parser \<Rightarrow> ('c, 'p) handover list" where
  "transform_handovers reg input s =
     (case input of
        EndOfMessageMarker \<Rightarrow> push_handovers EOM s
      | Data bytes \<Rightarrow>
          resume_handovers (accumulate bytes s) @
          (case resume (accumulate bytes s) of
             (Threw e, s2) \<Rightarrow> []
           | (Returned, s2) \<Rightarrow>
               if \<not> suspended s2 then parseTokens_handovers reg s2 else []))"

fun feed_handovers ::
  "('c, 'p, 'o) registry \<Rightarrow> chunk list \<Rightarrow> ('c, 'p, 'o) parser \<Rightarrow> ('c, 'p) handover list" where
  "feed_handovers reg [] s = []"
| "feed_handovers reg (c # cs) s =
     transform_handovers reg c s @
     (case transform reg c s of
        (Returned, s') \<Rightarrow> feed_handovers reg cs s'
      | (Threw e, s') \<Rightarrow> [])"

fun handovers_current :: "'c \<Rightarrow> ('c, 'p) handover list \<Rightarrow> bool" where
  "handovers_current cm [] = True"
| "handovers_current cm ((t, seen) # rest) =
     (seen = (case t of COLMETADATA cols \<Rightarrow> cols | _ \<Rightarrow> cm) \<and> handovers_current seen rest)"

fun context_after :: "'c \<Rightarrow> ('c, 'p) handover list \<Rightarrow> 'c" where
  "context_after cm [] = cm"
| "context_after cm ((t, seen) # rest) = context_after seen rest"

text \<open>
  A list of hand-overs fits the states \<open>s\<close> before and \<open>s'\<close> after when its tokens are
  those added to \<open>emitted\<close>, each hand-over shows the context current at that moment
  (\<open>handovers_current\<close>: the token's own columns for a COLMETADATA token, the context seen
  before for any other), and the last context shown is that of \<open>s'\<close>.
\<close>

definition handovers_ok ::
  "('c, 'p, 'o) parser \<Rightarrow> ('c, 'p) handover list \<Rightarrow> ('c, 'p, 'o) parser \<Rightarrow> bool" where
  "handovers_ok s hs s' \<longleftrightarrow>
     emitted s' = emitted s @ map fst hs
     \<and> handovers_current (colMetadata s) hs
     \<and> colMetadata s' = context_after (colMetadata s) hs"

text \<open>The little-endian encoding of a value on \<open>n\<close> bytes. The source has no encoder; this
  is the one the round-trip property speaks of, the inverse of \<open>le_value\<close>.\<close>

fun le_bytes :: "nat \<Rightarrow> nat \<Rightarrow> byte list" where
  "le_bytes 0 v = []"
| "le_bytes (Suc n) v = word_of_nat (v mod 256) # le_bytes n (v div 256)"

subsection \<open>Decoders built from the readers\<close>

text \<open>
  The token decoders are not part of this file of the source; what is known of them is that
  they read through the readers above and end by calling the completion callback. A
  program is \<open>reader_built\<close> when every \<open>awaitData\<close> callback in it behaves like those
  of the readers: once its \<open>n\<close> bytes are there it looks only at these \<open>n\<close> bytes at the
  position, moves the position past them, and goes on as a program that depends on them
  alone. (A reader-built program never throws: the range checks of the buffer reads are
  met by the \<open>awaitData\<close> that precedes them.)
\<close>

inductive reader_built :: "('c, 'p) prog \<Rightarrow> bool" where
  rb_Return: "reader_built Return"
| rb_CallDone: "reader_built p \<Longrightarrow> reader_built (CallDone t p)"
| rb_AwaitData:
    "(\<And>buf pos. pos + n \<le> length buf \<Longrightarrow>
        callback buf pos = Advance n (k (take n (drop pos buf)))) \<Longrightarrow>
     (\<And>data. length data = n \<Longrightarrow> reader_built (k data)) \<Longrightarrow>
     reader_built (AwaitData n callback)"

definition reader_built_registry :: "('c, 'p, 'o) registry \<Rightarrow> bool" where
  "reader_built_registry reg \<longleftrightarrow>
     (\<forall>tag decoder cm opts. reg tag = Some decoder \<longrightarrow> reader_built (decoder cm opts))"

text \<open>
  Notions for comparing runs of the parser. \<open>appended s b\<close> is \<open>s\<close> with more bytes at the
  end of its buffer. Two states have the \<open>same_view\<close> when they agree on everything a
  reader-built program or the dispatch loop can see: the unread bytes and every field but
  \<open>buffer\<close>, \<open>position\<close> and, when not suspended, the stale \<open>next\<close>. A state is
  \<open>in_bounds\<close> when its position is inside the buffer, and \<open>resumable\<close> when moreover a
  suspended state holds a reader-built continuation.
\<close>

definition appended :: "('c, 'p, 'o) parser \<Rightarrow> byte list \<Rightarrow> ('c, 'p, 'o) parser" where
  "appended s b = s\<lparr>buffer := buffer s @ b\<rparr>"

definition same_view :: "('c, 'p, 'o) parser \<Rightarrow> ('c, 'p, 'o) parser \<Rightarrow> bool" where
  "same_view s t \<longleftrightarrow>
     drop (position s) (buffer s) = drop (position t) (buffer t)
     \<and> colMetadata s = colMetadata t \<and> options s = options t
     \<and> suspended s = suspended t \<and> (suspended s \<longrightarrow> next s = next t)
     \<and> emitted s = emitted t \<and> errors s = errors t
     \<and> errorListener s = errorListener t"

definition in_bounds :: "('c, 'p, 'o) parser \<Rightarrow> bool" where
  "in_bounds s \<longleftrightarrow> position s \<le> length (buffer s)"

definition resumable :: "('c, 'p, 'o) parser \<Rightarrow> bool" where
  "resumable s \<longleftrightarrow> in_bounds s \<and> (suspended s \<longrightarrow> (\<exists>q. next s = Some q \<and> reader_built q))"

definition res_view ::
  "outcome \<times> ('c, 'p, 'o) parser \<Rightarrow> outcome \<times> ('c, 'p, 'o) parser \<Rightarrow> bool" where
  "res_view r r' \<longleftrightarrow> fst r = fst r' \<and> same_view (snd r) (snd r')"

definition same_output ::
  "outcome \<times> ('c, 'p, 'o) parser \<Rightarrow> outcome \<times> ('c, 'p, 'o) parser \<Rightarrow> bool" where
  "same_output r r' \<longleftrightarrow>
     fst r = fst r' \<and> emitted (snd r) = emitted (snd r')
     \<and> errors (snd r) = errors (snd r') \<and> colMetadata (snd r) = colMetadata (snd r')"

text \<open>The two stages of \<open>_transform\<close> after the accumulator: resume, then dispatch.\<close>

definition then_parse ::
  "('c, 'p, 'o) registry \<Rightarrow> outcome \<times> ('c, 'p, 'o) parser \<Rightarrow> outcome \<times> ('c, 'p, 'o) parser" where
  "then_parse reg r = (case r of (Returned, s) \<Rightarrow> parseTokens reg s | (Threw e, s) \<Rightarrow> (Threw e, s))"

definition resume_and_parse :: "('c, 'p, 'o) registry \<Rightarrow> ('c, 'p, 'o) parser \<Rightarrow> outcome \<times> ('c, 'p, 'o) parser" where
  "resume_and_parse reg s = then_parse reg (resume s)"

definition continue_with ::
  "('c, 'p, 'o) registry \<Rightarrow> byte list \<Rightarrow> outcome \<times> ('c, 'p, 'o) parser \<Rightarrow> outcome \<times> ('c, 'p, 'o) parser" where
  "continue_with reg b r =
     (case r of (Returned, s) \<Rightarrow> resume_and_parse reg (accumulate b s) | (Threw e, s) \<Rightarrow> (Threw e, appended s b))"

subsection \<open>The column metadata a decoder should receive\<close>

text \<open>The columns of the last COLMETADATA token among the emitted ones, or the context the
  parser was created with when there is none.\<close>

fun latest :: "'c \<Rightarrow> ('c, 'p) token list \<Rightarrow> 'c" where
  "latest cm [] = cm"
| "latest cm (COLMETADATA cols # ts) = latest cols ts"
| "latest cm (t # ts) = latest cm ts"

definition context_current :: "'c \<Rightarrow> ('c, 'p, 'o) parser \<Rightarrow> bool" where
  "context_current cm0 s \<longleftrightarrow> colMetadata s = latest cm0 (emitted s)"

subsection \<open>Example decoders\<close>

text \<open>
  Small decoders in the style of the real ones, for concrete runs: column metadata is a
  16-bit count followed by one type byte for each column; a row is one 16-bit value for
  each column of the current metadata; a DONE token is a 16-bit status, a 16-bit command
  and a 32-bit row count. The tags are those of the protocol (0x81, 0xD1, 0xFD).
\<close>

definition example_colmetadata :: "nat list \<Rightarrow> unit \<Rightarrow> (nat list, nat list) prog" where
  "example_colmetadata cm opts =
     readUInt16LE (\<lambda>count. readBuffer count (\<lambda>types.
       CallDone (Some (COLMETADATA (map unat types))) Return))"

fun example_columns :: "nat list \<Rightarrow> nat list \<Rightarrow> (nat list, nat list) prog" where
  "example_columns [] acc = CallDone (Some (ROW (rev acc))) Return"
| "example_columns (c # cs) acc = readUInt16LE (\<lambda>v. example_columns cs (v # acc))"

definition example_row :: "nat list \<Rightarrow> unit \<Rightarrow> (nat list, nat list) prog" where
  "example_row cm opts = example_columns cm []"

definition example_done :: "nat list \<Rightarrow> unit \<Rightarrow> (nat list, nat list) prog" where
  "example_done cm opts =
     readUInt16LE (\<lambda>status. readUInt16LE (\<lambda>curCmd. readUInt32LE (\<lambda>rowCount.
       CallDone (Some (DONE [status, curCmd, rowCount])) Return)))"

definition example_registry :: "(nat list, nat list, unit) registry" where
  "example_registry tag =
     (if tag = 0x81 then Some example_colmetadata
      else if tag = 0xD1 then Some example_row
      else if tag = 0xFD then Some example_done
      else None)"

section \<open>Basic facts\<close>

declare parseTokens.simps [simp del]

lemma buf_readUInt8_in_range:
  "pos < length buf \<Longrightarrow> buf_readUInt8 buf pos = Some (unat (buf ! pos))"
  by (simp add: buf_readUInt8_def buf_readUIntLE_def take_Suc_conv_app_nth hd_drop_conv_nth take_Suc)

lemma parseTokens_stop:
  "suspended s \<or> length (buffer s) \<le> position s \<Longrightarrow> parseTokens reg s = (Returned, s)"
  by (subst parseTokens.simps) auto

lemma parseTokens_dispatch:
  assumes "\<not> suspended s" and "position s < length (buffer s)"
    and "reg (unat (buffer s ! position s)) = Some decoder"
  shows "parseTokens reg s =
           (case exec (decoder (colMetadata s) (options s)) (s\<lparr>position := position s + 1\<rparr>) of
              (Returned, s2) \<Rightarrow> parseTokens reg s2
            | (Threw e, s2) \<Rightarrow> (Threw e, s2))"
  using assms by (subst parseTokens.simps) (simp add: buf_readUInt8_in_range Let_def)

lemma parseTokens_unknown:
  assumes "\<not> suspended s" and "position s < length (buffer s)"
    and "reg (unat (buffer s ! position s)) = None"
  shows "parseTokens reg s =
           (if errorListener s
            then parseTokens reg
                   (s\<lparr>position := position s + 1,
                      errors := errors s @ [UnknownType (unat (buffer s ! position s))]\<rparr>)
            else (Threw (UnknownType (unat (buffer s ! position s))),
                  s\<lparr>position := position s + 1\<rparr>))"
  using assms by (subst parseTokens.simps) (simp add: buf_readUInt8_in_range Let_def emit_error_def)

lemma parseTokens_induct [consumes 0, case_names stop dispatch unknown]:
  fixes reg :: "('c, 'p, 'o) registry"
  assumes stop: "\<And>s. suspended s \<or> length (buffer s) \<le> position s \<Longrightarrow> P s"
    and dispatch: "\<And>s decoder o2 s2.
        \<not> suspended s \<Longrightarrow> position s < length (buffer s) \<Longrightarrow>
        reg (unat (buffer s ! position s)) = Some decoder \<Longrightarrow>
        exec (decoder (colMetadata s) (options s)) (s\<lparr>position := position s + 1\<rparr>) = (o2, s2) \<Longrightarrow>
        (o2 = Returned \<Longrightarrow> P s2) \<Longrightarrow> P s"
    and unknown: "\<And>s.
        \<not> suspended s \<Longrightarrow> position s < length (buffer s) \<Longrightarrow>
        reg (unat (buffer s ! position s)) = None \<Longrightarrow>
        (errorListener s \<Longrightarrow>
           P (s\<lparr>position := position s + 1,
                errors := errors s @ [UnknownType (unat (buffer s ! position s))]\<rparr>)) \<Longrightarrow> P s"
  shows "P s"
proof (induction "length (buffer s) - position s" arbitrary: s rule: less_induct)
  case less
  show ?case
  proof (cases "suspended s \<or> length (buffer s) \<le> position s")
    case True
    then show ?thesis by (rule stop)
  next
    case False
    then have ns: "\<not> suspended s" and lt: "position s < length (buffer s)" by auto
    show ?thesis
    proof (cases "reg (unat (buffer s ! position s))")
      case None
      show ?thesis
      proof (rule unknown [OF ns lt None])
        show "P (s\<lparr>position := position s + 1,
                errors := errors s @ [UnknownType (unat (buffer s ! position s))]\<rparr>)"
          by (rule less) (use lt in simp)
      qed
    next
      case (Some decoder)
      define s1 where "s1 = s\<lparr>position := position s + 1\<rparr>"
      obtain o2 s2 where ex: "exec (decoder (colMetadata s) (options s)) s1 = (o2, s2)"
        by (cases "exec (decoder (colMetadata s) (options s)) s1")
      have "buffer s2 = buffer s" "position s1 \<le> position s2"
        using exec_buffer [of "decoder (colMetadata s) (options s)" s1]
          exec_position [of s1 "decoder (colMetadata s) (options s)"] ex
        by (simp_all add: s1_def)
      then have "length (buffer s2) - position s2 < length (buffer s) - position s"
        using lt by (simp add: s1_def)
      then have "P s2" by (rule less)
      with dispatch [OF ns lt Some ex [unfolded s1_def]] show ?thesis by simp
    qed
  qed
qed

lemma parseTokens_buffer: "buffer (snd (parseTokens reg s)) = buffer s"
proof (induction s rule: parseTokens_induct [where reg = reg])
  case (stop s)
  then show ?case by (simp add: parseTokens_stop)
next
  case (dispatch s decoder o2 s2)
  have "buffer s2 = buffer s"
    using exec_buffer [of "decoder (colMetadata s) (options s)" "s\<lparr>position := position s + 1\<rparr>"]
      dispatch(4) by simp
  with dispatch show ?case
    by (cases o2) (simp_all add: parseTokens_dispatch [where decoder = decoder])
next
  case (unknown s)
  then show ?case by (simp add: parseTokens_unknown)
qed


lemma accumulate_eq:
  "accumulate input s =
     s\<lparr>buffer := (if position s = length (buffer s) then input
                  else drop (position s) (buffer s) @ input),
       position := 0\<rparr>"
  by (simp add: accumulate_def buf_slice_from_def)

lemma resume_buffer: "buffer (snd (resume s)) = buffer s"
  by (simp add: resume_def Let_def exec_buffer split: option.splits)

lemma transform_buffer:
  "buffer (snd (transform reg (Data input) s)) = buffer (accumulate input s)"
proof -
  obtain o2 s2 where r: "resume (accumulate input s) = (o2, s2)"
    by (cases "resume (accumulate input s)")
  then have "buffer s2 = buffer (accumulate input s)"
    using resume_buffer [of "accumulate input s"] by simp
  then show ?thesis
    using r parseTokens_buffer [of reg s2]
    by (cases o2) (simp_all add: transform_def)
qed

lemma buf_readUIntLE_at:
  assumes "drop pos buf = pre @ bs @ rest" and "length pre = k" and "length bs = n" and "0 < n"
  shows "buf_readUIntLE n buf (pos + k) = Some (le_value bs)"
proof -
  have len: "length buf - pos = k + n + length rest"
    using arg_cong [OF assms(1), of length] assms(2,3) by simp
  with assms(4) have "pos + k + n \<le> length buf" by simp
  moreover have "drop (pos + k) buf = bs @ rest"
    using assms(1,2) by (metis add.commute append_eq_conv_conj drop_drop)
  ultimately show ?thesis using assms(3) by (simp add: buf_readUIntLE_def)
qed

lemma buf_readUIntLE_at0:
  assumes "drop pos buf = bs @ rest" and "length bs = n" and "0 < n"
  shows "buf_readUIntLE n buf pos = Some (le_value bs)"
  using buf_readUIntLE_at [of pos buf "[]" bs rest 0 n] assms by simp

lemma buf_index_at:
  assumes "drop pos buf = pre @ b # rest" and "length pre = k"
  shows "buf_index buf (pos + k) = Some b"
proof -
  have "length buf - pos = k + 1 + length rest"
    using arg_cong [OF assms(1), of length] assms(2) by simp
  then have lt: "pos + k < length buf" by simp
  have "drop pos buf ! k = b" using assms by (simp add: nth_append)
  then have "buf ! (pos + k) = b" using lt by simp
  with lt show ?thesis by (simp add: buf_index_def)
qed

lemma length_at:
  assumes "drop pos buf = bs @ rest" and "0 < length bs"
  shows "pos + length bs \<le> length buf"
proof -
  have "length buf - pos = length bs + length rest"
    using arg_cong [OF assms(1), of length] by simp
  with assms(2) show ?thesis by linarith
qed

lemma readInt64LE_at:
  assumes "drop (position s) (buffer s) = [b0, b1, b2, b3, b4, b5, b6, b7] @ rest"
  shows "exec (readInt64LE callback) s =
         exec (callback
                 (js_add (js_mul (2 ^ 32) (to_int32 (le_value [b4, b5, b6, b7])))
                    (js_mul (if b4 AND 0x80 = 0x80 then 1 else - 1) (int (le_value [b0, b1, b2, b3])))))
           (s\<lparr>position := position s + 8\<rparr>)"
proof -
  have len: "position s + 8 \<le> length (buffer s)"
    using length_at [OF assms] by simp
  have lo: "buf_readUInt32LE (buffer s) (position s) = Some (le_value [b0, b1, b2, b3])"
    unfolding buf_readUInt32LE_def
    by (rule buf_readUIntLE_at0 [where rest = "[b4, b5, b6, b7] @ rest"]) (use assms in simp_all)
  have hi: "buf_readUInt32LE (buffer s) (position s + 4) = Some (le_value [b4, b5, b6, b7])"
    unfolding buf_readUInt32LE_def
    by (rule buf_readUIntLE_at [where pre = "[b0, b1, b2, b3]" and rest = rest]) (use assms in simp_all)
  have ix: "buf_index (buffer s) (position s + 4) = Some b4"
    by (rule buf_index_at [where pre = "[b0, b1, b2, b3]" and rest = "[b5, b6, b7] @ rest"])
      (use assms in simp_all)
  show ?thesis
    using len by (simp add: readInt64LE_def lo hi ix buf_readInt32LE_def js_bit7_set_def Let_def)
qed

lemma js_round_small: "\<bar>x\<bar> \<le> 2 ^ 53 \<Longrightarrow> js_round x = x"
  by (simp add: js_round_def Let_def)

lemma length_ucs2: "length payload = 2 * n \<Longrightarrow> length (ucs2 payload) = n"
proof (induction payload arbitrary: n rule: ucs2.induct)
  case (1 lo hi bs)
  then obtain m where "n = Suc m" by (cases n) auto
  with 1 show ?case by simp
qed auto

lemma readUInt8_at:
  assumes "drop (position s) (buffer s) = b # rest"
  shows "exec (readUInt8 callback) s = exec (callback (unat b)) (s\<lparr>position := position s + 1\<rparr>)"
proof -
  have "position s + 1 \<le> length (buffer s)"
    using length_at [of "position s" "buffer s" "[b]" rest] assms by simp
  moreover have "buf_readUInt8 (buffer s) (position s) = Some (le_value [b])"
    unfolding buf_readUInt8_def
    by (rule buf_readUIntLE_at0 [where rest = rest]) (use assms in simp_all)
  ultimately show ?thesis by (simp add: readUInt8_def)
qed

lemma readUInt16LE_at:
  assumes "drop (position s) (buffer s) = lo # hi # rest"
  shows "exec (readUInt16LE callback) s =
         exec (callback (unat lo + 256 * unat hi)) (s\<lparr>position := position s + 2\<rparr>)"
proof -
  have "position s + 2 \<le> length (buffer s)"
    using length_at [of "position s" "buffer s" "[lo, hi]" rest] assms by simp
  moreover have "buf_readUInt16LE (buffer s) (position s) = Some (le_value [lo, hi])"
    unfolding buf_readUInt16LE_def
    by (rule buf_readUIntLE_at0 [where rest = rest]) (use assms in simp_all)
  ultimately show ?thesis by (simp add: readUInt16LE_def)
qed

lemma drop_add_at: "drop pos buf = pre @ rest \<Longrightarrow> drop (pos + length pre) buf = rest"
  by (metis add.commute append_eq_conv_conj drop_drop)

lemma readBuffer_at:
  assumes "drop (position s) (buffer s) = data @ rest" and "length data = len"
    and "position s \<le> length (buffer s)"
  shows "exec (readBuffer len callback) s = exec (callback data) (s\<lparr>position := position s + len\<rparr>)"
proof -
  have "length (buffer s) - position s = len + length rest"
    using arg_cong [OF assms(1), of length] assms(2) by simp
  with assms(3) have "position s + len \<le> length (buffer s)" by linarith
  moreover have "buf_slice (buffer s) (position s) (position s + len) = data"
    using assms by (simp add: buf_slice_def)
  ultimately show ?thesis by (simp add: readBuffer_def)
qed

lemma readBVarChar_at:
  assumes "drop (position s) (buffer s) = len # payload @ rest"
    and "length payload = 2 * unat len"
  shows "exec (readBVarChar callback) s =
         exec (callback (ucs2 payload)) (s\<lparr>position := position s + 1 + 2 * unat len\<rparr>)"
proof -
  let ?s1 = "s\<lparr>position := position s + 1\<rparr>"
  have "drop (position s + length [len]) (buffer s) = payload @ rest"
    by (rule drop_add_at) (use assms(1) in simp)
  then have d: "drop (position ?s1) (buffer ?s1) = payload @ rest" by simp
  have "position s + 1 \<le> length (buffer s)"
    using length_at [of "position s" "buffer s" "[len]" "payload @ rest"] assms(1) by simp
  then have r: "position ?s1 \<le> length (buffer ?s1)" by simp
  have "exec (readBVarChar callback) s =
        exec (readBuffer (unat len * 2) (\<lambda>data. callback (ucs2 data))) ?s1"
    unfolding readBVarChar_def by (rule readUInt8_at) (rule assms(1))
  also have "\<dots> = exec (callback (ucs2 payload)) (?s1\<lparr>position := position ?s1 + unat len * 2\<rparr>)"
    by (rule readBuffer_at [OF d _ r]) (use assms(2) in simp)
  finally show ?thesis by (simp add: add.assoc mult.commute)
qed

lemma readUsVarChar_at:
  assumes "drop (position s) (buffer s) = lo # hi # payload @ rest"
    and "length payload = 2 * (unat lo + 256 * unat hi)"
  shows "exec (readUsVarChar callback) s =
         exec (callback (ucs2 payload))
           (s\<lparr>position := position s + 2 + 2 * (unat lo + 256 * unat hi)\<rparr>)"
proof -
  let ?s1 = "s\<lparr>position := position s + 2\<rparr>"
  let ?n = "unat lo + 256 * unat hi"
  have "drop (position s + length [lo, hi]) (buffer s) = payload @ rest"
    by (rule drop_add_at) (use assms(1) in simp)
  then have d: "drop (position ?s1) (buffer ?s1) = payload @ rest" by simp
  have "position s + 2 \<le> length (buffer s)"
    using length_at [of "position s" "buffer s" "[lo, hi]" "payload @ rest"] assms(1) by simp
  then have r: "position ?s1 \<le> length (buffer ?s1)" by simp
  have "exec (readUsVarChar callback) s =
        exec (readBuffer (?n * 2) (\<lambda>data. callback (ucs2 data))) ?s1"
    unfolding readUsVarChar_def by (rule readUInt16LE_at) (rule assms(1))
  also have "\<dots> = exec (callback (ucs2 payload)) (?s1\<lparr>position := position ?s1 + ?n * 2\<rparr>)"
    by (rule readBuffer_at [OF d _ r]) (use assms(2) in simp)
  finally show ?thesis by (simp add: add.assoc mult.commute)
qed

lemma readUInt64LE_eq: "readUInt64LE callback = readUNumeric64LE callback"
proof -
  have "(case buf_readUInt32LE buf (pos + 4) of
         None \<Rightarrow> Throw RangeError
       | Some high \<Rightarrow>
           case buf_readUInt32LE buf pos of
             None \<Rightarrow> Throw RangeError
           | Some low \<Rightarrow>
               Advance 8 (callback (js_add (js_mul (2 ^ 32) (int high)) (int low)))) =
       (case buf_readUInt32LE buf pos of
         None \<Rightarrow> Throw RangeError
       | Some low \<Rightarrow>
           case buf_readUInt32LE buf (pos + 4) of
             None \<Rightarrow> Throw RangeError
           | Some high \<Rightarrow>
               Advance 8 (callback (js_add (js_mul 0x100000000 (int high)) (int low))))" for buf pos
    by (simp split: option.splits)
  then show ?thesis by (simp add: readUInt64LE_def readUNumeric64LE_def)
qed

lemma readUNumeric64LE_in_range:
  assumes "position s + 8 \<le> length (buffer s)"
  shows "exec (readUNumeric64LE callback) s =
         exec (callback
                 (js_add (js_mul (2 ^ 32) (int (le_value (take 4 (drop (position s + 4) (buffer s))))))
                    (int (le_value (take 4 (drop (position s) (buffer s)))))))
           (s\<lparr>position := position s + 8\<rparr>)"
  using assms by (simp add: readUNumeric64LE_def buf_readUInt32LE_def buf_readUIntLE_def)

lemma awaitData_ready:
  "position s + need \<le> length (buffer s) \<Longrightarrow>
   awaitData need onReady s = exec (onReady (buffer s) (position s)) s"
  by (simp add: awaitData_def)

lemma awaitData_suspends:
  "\<not> position s + need \<le> length (buffer s) \<Longrightarrow>
   awaitData need onReady s = (Returned, s\<lparr>suspended := True, next := Some (AwaitData need onReady)\<rparr>)"
  by (simp add: awaitData_def suspend_def)

lemma resume_insufficient:
  assumes "suspended t" and "next t = Some (AwaitData need onReady)"
    and "\<not> position t + need \<le> length (buffer t)"
  shows "resume t = (Returned, t)"
  using assms by (simp add: resume_def suspend_def)

lemma transform_insufficient:
  assumes "suspended t" and "next t = Some (AwaitData need onReady)"
    and "length (drop (position t) (buffer t)) + length input < need"
  shows "transform reg (Data input) t = (Returned, accumulate input t)"
proof -
  let ?a = "accumulate input t"
  have "suspended ?a" "next ?a = Some (AwaitData need onReady)"
    "\<not> position ?a + need \<le> length (buffer ?a)"
    using assms by (auto simp: accumulate_eq)
  then have "resume ?a = (Returned, ?a)" by (rule resume_insufficient)
  with \<open>suspended ?a\<close> show ?thesis by (simp add: transform_def)
qed


lemma nat_or_shl16:
  fixes low high :: nat
  assumes "low < 2 ^ 16"
  shows "low OR push_bit 16 high = low + 65536 * high"
proof -
  have "low + push_bit 16 high = low OR push_bit 16 high"
  proof (rule disjunctive_add)
    fix n
    show "\<not> bit low n \<or> \<not> bit (push_bit 16 high) n"
    proof (cases "n < 16")
      case True
      then show ?thesis by (simp add: bit_push_bit_iff)
    next
      case False
      then have "16 \<le> n" by simp
      then have "(2::nat) ^ 16 \<le> 2 ^ n" by (rule power_increasing) simp
      with assms have "low < 2 ^ n" by linarith
      then have "\<not> bit low n" by (simp add: bit_iff_odd)
      then show ?thesis by simp
    qed
  qed
  then show ?thesis by (simp add: push_bit_eq_mult)
qed

lemma sint_small: "n < 2 ^ 31 \<Longrightarrow> sint (word_of_nat n :: 32 word) = int n"
proof -
  assume a: "n < 2 ^ 31"
  then have "n < 2 ^ 32" by simp
  then have "take_bit 32 n = n" by (rule take_bit_nat_eq_self)
  then have "sint (word_of_nat n :: 32 word) = signed_take_bit 31 (int n)"
    by (simp add: sint_uint unsigned_of_nat take_bit_of_nat signed_take_bit_take_bit)
  also have "\<dots> = int n"
  proof (rule signed_take_bit_int_eq_self)
    show "- (2 ^ 31) \<le> int n" by (rule order_trans [of _ 0]) simp_all
    have "int n < int (2 ^ 31)" using a by (rule iffD2 [OF of_nat_less_iff])
    then show "int n < 2 ^ 31" by simp
  qed
  finally show ?thesis .
qed


lemma js_or_shl16_small:
  assumes "low < 2 ^ 16" and "high < 2 ^ 8"
  shows "js_or_shl16 low high = int (low + 65536 * high)"
proof -
  have "low + 65536 * high < 2 ^ 31" using assms by simp
  then have "sint (word_of_nat (low + 65536 * high) :: 32 word) = int (low + 65536 * high)"
    by (rule sint_small)
  moreover have "(word_of_nat low :: 32 word) OR push_bit 16 (word_of_nat high) =
      word_of_nat (low OR push_bit 16 high)"
    by (simp add: of_nat_or_eq push_bit_of_nat)
  ultimately show ?thesis
    using nat_or_shl16 [OF assms(1), of high] by (simp add: js_or_shl16_def)
qed

lemma length_le_bytes [simp]: "length (le_bytes n v) = n"
  by (induction n arbitrary: v) simp_all

lemma le_value_le_bytes: "le_value (le_bytes n v) = v mod 256 ^ n"
proof (induction n arbitrary: v)
  case 0
  show ?case by simp
next
  case (Suc n)
  have "unat (word_of_nat (v mod 256) :: byte) = v mod 256"
    by (simp add: unat_of_nat)
  then have "le_value (le_bytes (Suc n) v) = v mod 256 + 256 * ((v div 256) mod 256 ^ n)"
    by (simp add: Suc)
  also have "\<dots> = v mod 256 ^ Suc n"
    by (simp add: mod_mult2_eq)
  finally show ?case .
qed

lemma le_bytes_add: "le_bytes (m + n) v = le_bytes m v @ le_bytes n (v div 256 ^ m)"
proof (induction m arbitrary: v)
  case 0
  show ?case by simp
next
  case (Suc m)
  show ?case by (simp add: Suc div_mult2_eq)
qed

lemma buf_readUIntLE_le_bytes:
  assumes "drop pos buf = le_bytes N v @ rest" and "k + n \<le> N" and "0 < n"
  shows "buf_readUIntLE n buf (pos + k) = Some ((v div 256 ^ k) mod 256 ^ n)"
proof -
  obtain r where N: "N = k + (n + r)" using assms(2) by (metis add.assoc le_Suc_ex)
  have "le_bytes N v = le_bytes k v @ le_bytes n (v div 256 ^ k) @ le_bytes r (v div 256 ^ k div 256 ^ n)"
    unfolding N by (simp add: le_bytes_add)
  then have "drop pos buf = le_bytes k v @ le_bytes n (v div 256 ^ k) @
      (le_bytes r (v div 256 ^ k div 256 ^ n) @ rest)"
    using assms(1) by simp
  then have "buf_readUIntLE n buf (pos + k) = Some (le_value (le_bytes n (v div 256 ^ k)))"
    by (rule buf_readUIntLE_at) (simp_all add: assms(3))
  then show ?thesis by (simp add: le_value_le_bytes)
qed

lemma le_bytes_in_range:
  assumes "drop pos buf = le_bytes N v @ rest" and "0 < N"
  shows "pos + N \<le> length buf"
  using length_at [OF assms(1)] assms(2) by simp

lemma js_exact: "\<bar>a * b\<bar> \<le> 2 ^ 53 \<Longrightarrow> js_mul a b = a * b"
  "\<bar>a + b\<bar> \<le> 2 ^ 53 \<Longrightarrow> js_add a b = a + b"
  by (simp_all add: js_mul_def js_add_def js_round_small)

lemma js_mul_zero [simp]: "js_mul a 0 = 0"
  by (simp add: js_mul_def js_round_small)

lemma split32:
  fixes v :: nat
  assumes "v \<le> 2 ^ 53"
  shows "js_add (int (v mod 4294967296)) (js_mul 4294967296 (int (v div 4294967296 mod 4294967296))) = int v"
    and "js_add (js_mul 4294967296 (int (v div 4294967296 mod 4294967296))) (int (v mod 4294967296)) = int v"
    and "v div 18446744073709551616 = 0"
proof -
  have lt: "v div 4294967296 < 4294967296" using assms by simp
  have v: "4294967296 * (v div 4294967296) + v mod 4294967296 = v" by simp
  have le: "int v \<le> 2 ^ 53" using assms by (metis of_nat_le_iff of_nat_numeral of_nat_power)
  have m: "js_mul 4294967296 (int (v div 4294967296)) = 4294967296 * int (v div 4294967296)"
  proof (rule js_exact)
    have "4294967296 * (v div 4294967296) \<le> v" by simp
    then have "int (4294967296 * (v div 4294967296)) \<le> int v" by (rule iffD2 [OF of_nat_le_iff])
    with le show "\<bar>4294967296 * int (v div 4294967296)\<bar> \<le> 2 ^ 53" by simp
  qed
  have "int (v mod 4294967296) + 4294967296 * int (v div 4294967296) =
      int (v mod 4294967296 + 4294967296 * (v div 4294967296))"
    by (simp only: of_nat_add of_nat_mult of_nat_numeral)
  also have "\<dots> = int v" by (simp only: mod_mult_div_eq)
  finally have s: "int (v mod 4294967296) + 4294967296 * int (v div 4294967296) = int v" .
  then have a: "js_add (int (v mod 4294967296)) (4294967296 * int (v div 4294967296)) = int v"
    using le by (simp add: js_exact)
  from s have s': "4294967296 * int (v div 4294967296) + int (v mod 4294967296) = int v" by simp
  then have b: "js_add (4294967296 * int (v div 4294967296)) (int (v mod 4294967296)) = int v"
    using le by (simp add: js_exact)
  show "js_add (int (v mod 4294967296)) (js_mul 4294967296 (int (v div 4294967296 mod 4294967296))) = int v"
    using lt a m by simp
  show "js_add (js_mul 4294967296 (int (v div 4294967296 mod 4294967296))) (int (v mod 4294967296)) = int v"
    using lt b m by simp
  show "v div 18446744073709551616 = 0" using assms by simp
qed

lemma readUInt24LE_le_bytes:
  assumes "drop (position s) (buffer s) = le_bytes 3 v @ rest" and "v < 2 ^ 24"
  shows "exec (readUInt24LE callback) s = exec (callback (int v)) (s\<lparr>position := position s + 3\<rparr>)"
proof -
  have len: "position s + 3 \<le> length (buffer s)"
    by (rule le_bytes_in_range [OF assms(1)]) simp
  have lo: "buf_readUInt16LE (buffer s) (position s) = Some (v mod 65536)"
    using buf_readUIntLE_le_bytes [OF assms(1), of 0 2] by (simp add: buf_readUInt16LE_def)
  have "v div 65536 < 256" using assms(2) by simp
  then have hi: "buf_readUInt8 (buffer s) (position s + 2) = Some (v div 65536)"
    using buf_readUIntLE_le_bytes [OF assms(1), of 2 1] by (simp add: buf_readUInt8_def)
  have "js_or_shl16 (v mod 65536) (v div 65536) = int (v mod 65536 + 65536 * (v div 65536))"
    by (rule js_or_shl16_small) (use \<open>v div 65536 < 256\<close> in simp_all)
  also have "\<dots> = int v" by (simp only: mod_mult_div_eq)
  finally show ?thesis using len by (simp add: readUInt24LE_def lo hi del: add_2_eq_Suc')
qed

lemma readUInt40LE_le_bytes:
  assumes "drop (position s) (buffer s) = le_bytes 5 v @ rest" and "v < 2 ^ 40"
  shows "exec (readUInt40LE callback) s = exec (callback (int v)) (s\<lparr>position := position s + 5\<rparr>)"
proof -
  have len: "position s + 5 \<le> length (buffer s)"
    by (rule le_bytes_in_range [OF assms(1)]) simp
  have lo: "buf_readUInt32LE (buffer s) (position s) = Some (v mod 4294967296)"
    using buf_readUIntLE_le_bytes [OF assms(1), of 0 4] by (simp add: buf_readUInt32LE_def)
  have small: "v div 4294967296 < 256" using assms(2) by simp
  then have hi: "buf_readUInt8 (buffer s) (position s + 4) = Some (v div 4294967296)"
    using buf_readUIntLE_le_bytes [OF assms(1), of 4 1] by (simp add: buf_readUInt8_def)
  have "v \<le> 2 ^ 53" using assms(2) by simp
  from split32(2) [OF this] small
  have "js_add (js_mul 4294967296 (int (v div 4294967296))) (int (v mod 4294967296)) = int v"
    by simp
  then show ?thesis using len by (simp add: readUInt40LE_def lo hi)
qed

lemma readUNumeric64LE_le_bytes:
  assumes "drop (position s) (buffer s) = le_bytes 8 v @ rest" and "v \<le> 2 ^ 53"
  shows "exec (readUNumeric64LE callback) s = exec (callback (int v)) (s\<lparr>position := position s + 8\<rparr>)"
proof -
  have len: "position s + 8 \<le> length (buffer s)"
    by (rule le_bytes_in_range [OF assms(1)]) simp
  have d1: "buf_readUInt32LE (buffer s) (position s) = Some (v mod 4294967296)"
    using buf_readUIntLE_le_bytes [OF assms(1), of 0 4] by (simp add: buf_readUInt32LE_def)
  have d2: "buf_readUInt32LE (buffer s) (position s + 4) = Some (v div 4294967296 mod 4294967296)"
    using buf_readUIntLE_le_bytes [OF assms(1), of 4 4] by (simp add: buf_readUInt32LE_def)
  show ?thesis using len split32(2) [OF assms(2)] by (simp add: readUNumeric64LE_def d1 d2)
qed

lemma readUNumeric96LE_le_bytes:
  assumes "drop (position s) (buffer s) = le_bytes 12 v @ rest" and "v \<le> 2 ^ 53"
  shows "exec (readUNumeric96LE callback) s = exec (callback (int v)) (s\<lparr>position := position s + 12\<rparr>)"
proof -
  have len: "position s + 12 \<le> length (buffer s)"
    by (rule le_bytes_in_range [OF assms(1)]) simp
  have d1: "buf_readUInt32LE (buffer s) (position s) = Some (v mod 4294967296)"
    using buf_readUIntLE_le_bytes [OF assms(1), of 0 4] by (simp add: buf_readUInt32LE_def)
  have d2: "buf_readUInt32LE (buffer s) (position s + 4) = Some (v div 4294967296 mod 4294967296)"
    using buf_readUIntLE_le_bytes [OF assms(1), of 4 4] by (simp add: buf_readUInt32LE_def)
  have d3: "buf_readUInt32LE (buffer s) (position s + 8) = Some 0"
    using buf_readUIntLE_le_bytes [OF assms(1), of 8 4] split32(3) [OF assms(2)]
    by (simp add: buf_readUInt32LE_def)
  have "js_add (int v) 0 = int v"
    using assms(2) by (metis add.right_neutral js_add_def js_round_small abs_of_nat of_nat_le_iff of_nat_numeral of_nat_power)
  then show ?thesis
    using len split32(1) [OF assms(2)] by (simp add: readUNumeric96LE_def d1 d2 d3)
qed

lemma readUNumeric128LE_le_bytes:
  assumes "drop (position s) (buffer s) = le_bytes 16 v @ rest" and "v \<le> 2 ^ 53"
  shows "exec (readUNumeric128LE callback) s = exec (callback (int v)) (s\<lparr>position := position s + 16\<rparr>)"
proof -
  have len: "position s + 16 \<le> length (buffer s)"
    by (rule le_bytes_in_range [OF assms(1)]) simp
  have d1: "buf_readUInt32LE (buffer s) (position s) = Some (v mod 4294967296)"
    using buf_readUIntLE_le_bytes [OF assms(1), of 0 4] by (simp add: buf_readUInt32LE_def)
  have d2: "buf_readUInt32LE (buffer s) (position s + 4) = Some (v div 4294967296 mod 4294967296)"
    using buf_readUIntLE_le_bytes [OF assms(1), of 4 4] by (simp add: buf_readUInt32LE_def)
  have d3: "buf_readUInt32LE (buffer s) (position s + 8) = Some 0"
    using buf_readUIntLE_le_bytes [OF assms(1), of 8 4] split32(3) [OF assms(2)]
    by (simp add: buf_readUInt32LE_def)
  have "v div 79228162514264337593543950336 = 0" using assms(2) by simp
  then have d4: "buf_readUInt32LE (buffer s) (position s + 12) = Some 0"
    using buf_readUIntLE_le_bytes [OF assms(1), of 12 4]
    by (simp add: buf_readUInt32LE_def)
  have "js_add (int v) 0 = int v"
    using assms(2) by (metis add.right_neutral js_add_def js_round_small abs_of_nat of_nat_le_iff of_nat_numeral of_nat_power)
  then show ?thesis
    using len split32(1) [OF assms(2)] by (simp add: readUNumeric128LE_def d1 d2 d3 d4)
qed


lemma le_bytes_3: "le_bytes 3 v =
    [word_of_nat (v mod 256), word_of_nat (v div 256 mod 256), word_of_nat (v div 256 div 256 mod 256)]"
proof -
  have "le_bytes 3 v = le_bytes (Suc (Suc (Suc 0))) v" by (simp only: numeral_3_eq_3)
  then show ?thesis by simp
qed

lemma le_bytes_example: "le_bytes 3 70000 = [0x70, 0x11, 0x01]"
  unfolding le_bytes_3 by simp

section \<open>The End-Of-Message marker\<close>

text \<open>
  Claim C7. Whatever the state of the parser, suspended or not, \<open>_transform\<close> on the
  End-Of-Message marker returns normally and pushes exactly one EOM token; the buffer, the
  position, the suspended flag, the stored continuation and every other field stay as
  they were: the marker neither reaches the accumulator nor the dispatch loop.
\<close>

theorem transform_EndOfMessageMarker:
  "transform reg EndOfMessageMarker s = (Returned, s\<lparr>emitted := emitted s @ [EOM]\<rparr>)"
  by (simp add: transform_def push_def)

section \<open>The accumulator\<close>

text \<open>
  Claim C5. When a chunk of bytes arrives, the buffer becomes the chunk alone if the
  position had reached the end of the old buffer, and the unread rest of the old buffer
  followed by the chunk otherwise; the position is reset to 0. That buffer is the one
  the parser holds when \<open>_transform\<close> is over, since resuming and dispatching never
  change it.
\<close>

theorem accumulate_window:
  "accumulate input s =
     s\<lparr>buffer := (if position s = length (buffer s) then input
                  else drop (position s) (buffer s) @ input),
       position := 0\<rparr>
   \<and> buffer (snd (transform reg (Data input) s)) =
       (if position s = length (buffer s) then input
        else drop (position s) (buffer s) @ input)"
  by (simp add: transform_buffer accumulate_eq)

section \<open>Signed 64-bit integers\<close>

text \<open>
  Claim C3 says that \<open>readInt64LE\<close> yields \<open>2 ^ 32\<close> times the signed high word plus the
  unsigned low word. The source multiplies the low word by 1 or by -1, as bit 7 of the
  byte at \<open>position + 4\<close> is set or not (lemma \<open>readInt64LE_at\<close>). On the eight bytes
  01 00 00 00 00 00 00 00, the little-endian encoding of 1, it hands -1 to its callback.
\<close>

theorem readInt64LE_of_one:
  "exec (readInt64LE callback) (s\<lparr>buffer := [1, 0, 0, 0, 0, 0, 0, 0], position := 0\<rparr>) =
   exec (callback (- 1)) (s\<lparr>buffer := [1, 0, 0, 0, 0, 0, 0, 0], position := 8\<rparr>)"
  using readInt64LE_at [where s = "s\<lparr>buffer := [1, 0, 0, 0, 0, 0, 0, 0], position := 0\<rparr>"
      and rest = "[]" and callback = callback]
  by (simp add: to_int32_def js_add_def js_mul_def js_round_small)

text \<open>The example of the claim does hold: 00 00 00 00 FF FF FF FF is read as
  \<open>- 4294967296\<close>.\<close>

lemma readInt64LE_example:
  "exec (readInt64LE callback)
     (s\<lparr>buffer := [0, 0, 0, 0, 0xFF, 0xFF, 0xFF, 0xFF], position := 0\<rparr>) =
   exec (callback (- 4294967296))
     (s\<lparr>buffer := [0, 0, 0, 0, 0xFF, 0xFF, 0xFF, 0xFF], position := 8\<rparr>)"
  using readInt64LE_at [where s = "s\<lparr>buffer := [0, 0, 0, 0, 0xFF, 0xFF, 0xFF, 0xFF], position := 0\<rparr>"
      and rest = "[]" and callback = callback]
  by (simp add: to_int32_def js_add_def js_mul_def js_round_small)

section \<open>Suspension\<close>

text \<open>
  Claim C4. \<open>awaitData(need, onReady)\<close>: when \<open>position + need \<le> buffer.length\<close> the
  callback runs at once, on the state as it is (the parser is not marked suspended).
  Otherwise the call returns the state with \<open>suspended\<close> set and the continuation
  \<open>AwaitData need onReady\<close> stored, and nothing else changed: buffer, position and emitted
  tokens are as before. Running the stored continuation is running
  \<open>awaitData need onReady\<close> again. So resuming a suspended parser whose data is still
  short gives back the very same state, and a chunk that leaves the data short only joins
  the unread bytes: no byte is consumed and no token is pushed.
\<close>

theorem awaitData_contract:
  "(position s + need \<le> length (buffer s) \<longrightarrow>
      awaitData need onReady s = exec (onReady (buffer s) (position s)) s)
   \<and> (\<not> position s + need \<le> length (buffer s) \<longrightarrow>
      awaitData need onReady s =
        (Returned, s\<lparr>suspended := True, next := Some (AwaitData need onReady)\<rparr>))
   \<and> exec (AwaitData need onReady) t = awaitData need onReady t
   \<and> (suspended t \<and> next t = Some (AwaitData need onReady)
       \<and> \<not> position t + need \<le> length (buffer t) \<longrightarrow> resume t = (Returned, t))
   \<and> (suspended t \<and> next t = Some (AwaitData need onReady)
       \<and> length (drop (position t) (buffer t)) + length input < need \<longrightarrow>
      transform reg (Data input) t =
        (Returned, t\<lparr>buffer := drop (position t) (buffer t) @ input, position := 0\<rparr>))"
proof -
  have "accumulate input t = t\<lparr>buffer := drop (position t) (buffer t) @ input, position := 0\<rparr>"
    by (simp add: accumulate_eq)
  then show ?thesis
    using transform_insufficient [of t need onReady input reg]
    by (simp add: awaitData_ready awaitData_suspends resume_insufficient)
      (simp add: awaitData_def suspend_def)
qed

theorem awaitData_contract_witness:
  "awaitData 4 (\<lambda>buf pos. Advance 4 Return)
     ((new_parser () () True :: (unit, unit, unit) parser)\<lparr>buffer := [1, 2, 3, 4]\<rparr>) =
     (Returned, (new_parser () () True)\<lparr>buffer := [1, 2, 3, 4], position := 4\<rparr>)
   \<and> awaitData 4 (\<lambda>buf pos. Advance 4 Return)
     ((new_parser () () True :: (unit, unit, unit) parser)\<lparr>buffer := [1, 2]\<rparr>) =
     (Returned, (new_parser () () True)
        \<lparr>buffer := [1, 2], suspended := True,
          next := Some (AwaitData 4 (\<lambda>buf pos. Advance 4 Return))\<rparr>)
   \<and> transform (\<lambda>tag. None) (Data [3])
     ((new_parser () () True :: (unit, unit, unit) parser)
        \<lparr>buffer := [1, 2], suspended := True,
          next := Some (AwaitData 4 (\<lambda>buf pos. Advance 4 Return))\<rparr>) =
     (Returned, (new_parser () () True)
        \<lparr>buffer := [1, 2, 3], suspended := True,
          next := Some (AwaitData 4 (\<lambda>buf pos. Advance 4 Return))\<rparr>)"
  using awaitData_contract [of "(new_parser () () True :: (unit, unit, unit) parser)\<lparr>buffer := [1, 2, 3, 4]\<rparr>"
      4 "\<lambda>buf pos. Advance 4 Return"
      "(new_parser () () True :: (unit, unit, unit) parser)
        \<lparr>buffer := [1, 2], suspended := True,
          next := Some (AwaitData 4 (\<lambda>buf pos. Advance 4 Return))\<rparr>" "[3]" "\<lambda>tag. None"]
    awaitData_contract [of "(new_parser () () True :: (unit, unit, unit) parser)\<lparr>buffer := [1, 2]\<rparr>"
      4 "\<lambda>buf pos. Advance 4 Return"
      "(new_parser () () True :: (unit, unit, unit) parser)
        \<lparr>buffer := [1, 2], suspended := True,
          next := Some (AwaitData 4 (\<lambda>buf pos. Advance 4 Return))\<rparr>" "[3]" "\<lambda>tag. None"]
  by (simp add: new_parser_def awaitData_def suspend_def)

section \<open>Unsigned 64-bit readers\<close>

text \<open>
  Claim C10. \<open>readUInt64LE\<close> and \<open>readUNumeric64LE\<close> are the same program for every
  callback. With at least 8 bytes from the position on, both hand the callback the number
  \<open>2 ^ 32 * high + low\<close> computed in JavaScript numbers (\<open>low\<close> and \<open>high\<close> the unsigned
  values of the first and the last four bytes), which is the exact sum as long as it is at
  most \<open>2 ^ 53\<close>, and both move the position forward by 8.
\<close>

theorem readUInt64LE_readUNumeric64LE:
  "readUInt64LE callback = readUNumeric64LE callback
   \<and> (position s + 8 \<le> length (buffer s) \<longrightarrow>
        (let low = le_value (take 4 (drop (position s) (buffer s)));
             high = le_value (take 4 (drop (position s + 4) (buffer s)));
             data = js_add (js_mul (2 ^ 32) (int high)) (int low);
             s' = s\<lparr>position := position s + 8\<rparr>
         in exec (readUInt64LE callback) s = exec (callback data) s'
            \<and> exec (readUNumeric64LE callback) s = exec (callback data) s'
            \<and> (2 ^ 32 * high + low \<le> 2 ^ 53 \<longrightarrow> data = 2 ^ 32 * int high + int low)))"
proof -
  have exact: "js_add (js_mul (2 ^ 32) (int high)) (int low) = 2 ^ 32 * int high + int low"
    if "2 ^ 32 * high + low \<le> 2 ^ 53" for high low :: nat
  proof -
    from that have "int (2 ^ 32 * high + low) \<le> int (2 ^ 53)"
      by (rule iffD2 [OF of_nat_le_iff])
    then have le: "2 ^ 32 * int high + int low \<le> 2 ^ 53" by simp
    then have "\<bar>2 ^ 32 * int high\<bar> \<le> 2 ^ 53" by simp
    then have "js_mul (2 ^ 32) (int high) = 2 ^ 32 * int high"
      unfolding js_mul_def by (rule js_round_small)
    moreover have "\<bar>2 ^ 32 * int high + int low\<bar> \<le> 2 ^ 53" using le by simp
    ultimately show ?thesis unfolding js_add_def by (simp add: js_round_small)
  qed
  show ?thesis
    using exact by (simp add: readUInt64LE_eq readUNumeric64LE_in_range Let_def)
qed

theorem readUInt64LE_readUNumeric64LE_witness:
  "(readUInt64LE (\<lambda>v. CallDone (Some (RETURNSTATUS v)) Return) :: (unit, int) prog) =
   readUNumeric64LE (\<lambda>v. CallDone (Some (RETURNSTATUS v)) Return)
   \<and> exec (readUInt64LE (\<lambda>v. CallDone (Some (RETURNSTATUS v)) Return))
        ((new_parser () () True :: (unit, int, unit) parser)\<lparr>buffer := [1, 0, 0, 0, 2, 0, 0, 0]\<rparr>) =
       (Returned, (new_parser () () True)
          \<lparr>buffer := [1, 0, 0, 0, 2, 0, 0, 0], position := 8, emitted := [RETURNSTATUS 8589934593]\<rparr>)
   \<and> exec (readUNumeric64LE (\<lambda>v. CallDone (Some (RETURNSTATUS v)) Return))
        ((new_parser () () True :: (unit, int, unit) parser)\<lparr>buffer := [1, 0, 0, 0, 2, 0, 0, 0]\<rparr>) =
       (Returned, (new_parser () () True)
          \<lparr>buffer := [1, 0, 0, 0, 2, 0, 0, 0], position := 8, emitted := [RETURNSTATUS 8589934593]\<rparr>)"
  using readUInt64LE_readUNumeric64LE [of "\<lambda>v. CallDone (Some (RETURNSTATUS v)) Return"
      "(new_parser () () True :: (unit, int, unit) parser)\<lparr>buffer := [1, 0, 0, 0, 2, 0, 0, 0]\<rparr>"]
  by (auto simp add: new_parser_def doneParsing_def push_def Let_def js_add_def js_mul_def
      js_round_small)

section \<open>Length-prefixed text\<close>

text \<open>
  Claim C8. \<open>readBVarChar\<close> reads one byte \<open>len\<close>, then \<open>2 * len\<close> bytes, and hands its
  callback these bytes decoded as \<open>len\<close> two-byte code units; the position moves past all
  of them. \<open>readUsVarChar\<close> does the same with a two-byte little-endian length. The
  witness is the example of the claim: 03 41 00 42 00 43 00 is read as "ABC", and so is
  03 00 41 00 42 00 43 00 by \<open>readUsVarChar\<close>.
\<close>

theorem readBVarChar_readUsVarChar:
  "(drop (position s) (buffer s) = len # payload @ rest \<and> length payload = 2 * unat len \<longrightarrow>
      exec (readBVarChar callback) s =
      exec (callback (ucs2 payload)) (s\<lparr>position := position s + 1 + 2 * unat len\<rparr>)
      \<and> length (ucs2 payload) = unat len)
   \<and> (drop (position s) (buffer s) = lo # hi # payload @ rest
       \<and> length payload = 2 * (unat lo + 256 * unat hi) \<longrightarrow>
      exec (readUsVarChar callback) s =
      exec (callback (ucs2 payload))
        (s\<lparr>position := position s + 2 + 2 * (unat lo + 256 * unat hi)\<rparr>)
      \<and> length (ucs2 payload) = unat lo + 256 * unat hi)"
  by (simp add: readBVarChar_at readUsVarChar_at length_ucs2)

theorem readBVarChar_readUsVarChar_witness:
  "emitted (snd (exec (readBVarChar (\<lambda>str. CallDone (Some (INFO str)) Return))
      ((new_parser () () True :: (unit, jsstring, unit) parser)
         \<lparr>buffer := [0x03, 0x41, 0x00, 0x42, 0x00, 0x43, 0x00]\<rparr>))) = [INFO [0x41, 0x42, 0x43]]
   \<and> emitted (snd (exec (readUsVarChar (\<lambda>str. CallDone (Some (INFO str)) Return))
      ((new_parser () () True :: (unit, jsstring, unit) parser)
         \<lparr>buffer := [0x03, 0x00, 0x41, 0x00, 0x42, 0x00, 0x43, 0x00]\<rparr>))) = [INFO [0x41, 0x42, 0x43]]"
  using readBVarChar_readUsVarChar [of "(new_parser () () True :: (unit, jsstring, unit) parser)
         \<lparr>buffer := [0x03, 0x41, 0x00, 0x42, 0x00, 0x43, 0x00]\<rparr>" "0x03" "[0x41, 0x00, 0x42, 0x00, 0x43, 0x00]" "[]"
        "\<lambda>str. CallDone (Some (INFO str)) Return" "0x03" "0x00"]
    readBVarChar_readUsVarChar [of "(new_parser () () True :: (unit, jsstring, unit) parser)
         \<lparr>buffer := [0x03, 0x00, 0x41, 0x00, 0x42, 0x00, 0x43, 0x00]\<rparr>" "0x03" "[0x41, 0x00, 0x42, 0x00, 0x43, 0x00]" "[]"
        "\<lambda>str. CallDone (Some (INFO str)) Return" "0x03" "0x00"]
  by (simp add: new_parser_def doneParsing_def push_def)

section \<open>Extended-width unsigned integers\<close>

text \<open>
  Claim C6. A value \<open>v \<le> 2 ^ 53\<close> that fits the width, written as 3, 5, 8, 12 or 16
  little-endian bytes at the position, is handed unchanged to the callback by
  \<open>readUInt24LE\<close>, \<open>readUInt40LE\<close>, \<open>readUNumeric64LE\<close>, \<open>readUNumeric96LE\<close> and
  \<open>readUNumeric128LE\<close>, which move the position past the bytes.
\<close>

theorem extended_width_roundtrip:
  "v \<le> 2 ^ 53 \<longrightarrow>
     (v < 2 ^ 24 \<and> drop (position s) (buffer s) = le_bytes 3 v @ rest \<longrightarrow>
        exec (readUInt24LE callback) s =
        exec (callback (int v)) (s\<lparr>position := position s + 3\<rparr>))
   \<and> (v < 2 ^ 40 \<and> drop (position s) (buffer s) = le_bytes 5 v @ rest \<longrightarrow>
        exec (readUInt40LE callback) s =
        exec (callback (int v)) (s\<lparr>position := position s + 5\<rparr>))
   \<and> (v < 2 ^ 64 \<and> drop (position s) (buffer s) = le_bytes 8 v @ rest \<longrightarrow>
        exec (readUNumeric64LE callback) s =
        exec (callback (int v)) (s\<lparr>position := position s + 8\<rparr>))
   \<and> (v < 2 ^ 96 \<and> drop (position s) (buffer s) = le_bytes 12 v @ rest \<longrightarrow>
        exec (readUNumeric96LE callback) s =
        exec (callback (int v)) (s\<lparr>position := position s + 12\<rparr>))
   \<and> (v < 2 ^ 128 \<and> drop (position s) (buffer s) = le_bytes 16 v @ rest \<longrightarrow>
        exec (readUNumeric128LE callback) s =
        exec (callback (int v)) (s\<lparr>position := position s + 16\<rparr>))"
  using readUInt24LE_le_bytes [of s v rest callback] readUInt40LE_le_bytes [of s v rest callback]
    readUNumeric64LE_le_bytes [of s v rest callback] readUNumeric96LE_le_bytes [of s v rest callback]
    readUNumeric128LE_le_bytes [of s v rest callback]
  by blast

theorem extended_width_roundtrip_witness:
  "exec (readUInt24LE (\<lambda>v. CallDone (Some (RETURNSTATUS v)) Return))
      ((new_parser () () True :: (unit, int, unit) parser)\<lparr>buffer := le_bytes 3 70000\<rparr>) =
     (Returned, (new_parser () () True)
        \<lparr>buffer := le_bytes 3 70000, position := 3, emitted := [RETURNSTATUS 70000]\<rparr>)
   \<and> exec (readUInt40LE (\<lambda>v. CallDone (Some (RETURNSTATUS v)) Return))
      ((new_parser () () True :: (unit, int, unit) parser)\<lparr>buffer := le_bytes 5 70000\<rparr>) =
     (Returned, (new_parser () () True)
        \<lparr>buffer := le_bytes 5 70000, position := 5, emitted := [RETURNSTATUS 70000]\<rparr>)
   \<and> exec (readUNumeric64LE (\<lambda>v. CallDone (Some (RETURNSTATUS v)) Return))
      ((new_parser () () True :: (unit, int, unit) parser)\<lparr>buffer := le_bytes 8 (2 ^ 53)\<rparr>) =
     (Returned, (new_parser () () True)
        \<lparr>buffer := le_bytes 8 (2 ^ 53), position := 8,
          emitted := [RETURNSTATUS 9007199254740992]\<rparr>)
   \<and> exec (readUNumeric96LE (\<lambda>v. CallDone (Some (RETURNSTATUS v)) Return))
      ((new_parser () () True :: (unit, int, unit) parser)\<lparr>buffer := le_bytes 12 (2 ^ 53)\<rparr>) =
     (Returned, (new_parser () () True)
        \<lparr>buffer := le_bytes 12 (2 ^ 53), position := 12,
          emitted := [RETURNSTATUS 9007199254740992]\<rparr>)
   \<and> exec (readUNumeric128LE (\<lambda>v. CallDone (Some (RETURNSTATUS v)) Return))
      ((new_parser () () True :: (unit, int, unit) parser)\<lparr>buffer := le_bytes 16 (2 ^ 53)\<rparr>) =
     (Returned, (new_parser () () True)
        \<lparr>buffer := le_bytes 16 (2 ^ 53), position := 16,
          emitted := [RETURNSTATUS 9007199254740992]\<rparr>)"
  using extended_width_roundtrip [of 70000 "(new_parser () () True :: (unit, int, unit) parser)\<lparr>buffer := le_bytes 3 70000\<rparr>"
        "[]" "\<lambda>v. CallDone (Some (RETURNSTATUS v)) Return"]
    extended_width_roundtrip [of 70000 "(new_parser () () True :: (unit, int, unit) parser)\<lparr>buffer := le_bytes 5 70000\<rparr>"
        "[]" "\<lambda>v. CallDone (Some (RETURNSTATUS v)) Return"]
    extended_width_roundtrip [of "2 ^ 53" "(new_parser () () True :: (unit, int, unit) parser)\<lparr>buffer := le_bytes 8 (2 ^ 53)\<rparr>"
        "[]" "\<lambda>v. CallDone (Some (RETURNSTATUS v)) Return"]
    extended_width_roundtrip [of "2 ^ 53" "(new_parser () () True :: (unit, int, unit) parser)\<lparr>buffer := le_bytes 12 (2 ^ 53)\<rparr>"
        "[]" "\<lambda>v. CallDone (Some (RETURNSTATUS v)) Return"]
    extended_width_roundtrip [of "2 ^ 53" "(new_parser () () True :: (unit, int, unit) parser)\<lparr>buffer := le_bytes 16 (2 ^ 53)\<rparr>"
        "[]" "\<lambda>v. CallDone (Some (RETURNSTATUS v)) Return"]
  by (simp add: new_parser_def doneParsing_def push_def)

section \<open>Reader-built programs and chunk boundaries\<close>

lemma reader_built_readBuffer:
  assumes "\<And>data. reader_built (callback data)"
  shows "reader_built (readBuffer len callback)"
  unfolding readBuffer_def
  by (rule rb_AwaitData [where k = callback]) (simp_all add: buf_slice_def assms)

lemma reader_built_readUIntLE:
  assumes "\<And>v. reader_built (callback v)" and "0 < n"
  shows "reader_built (AwaitData n (\<lambda>buf pos.
       case buf_readUIntLE n buf pos of
         None \<Rightarrow> Throw RangeError
       | Some data \<Rightarrow> Advance n (callback data)))"
  by (rule rb_AwaitData [where k = "\<lambda>d. callback (le_value d)"])
    (simp_all add: buf_readUIntLE_def assms)

lemma reader_built_readUInt8:
  "(\<And>v. reader_built (callback v)) \<Longrightarrow> reader_built (readUInt8 callback)"
  unfolding readUInt8_def buf_readUInt8_def by (rule reader_built_readUIntLE) simp_all

lemma reader_built_readUInt16LE:
  "(\<And>v. reader_built (callback v)) \<Longrightarrow> reader_built (readUInt16LE callback)"
  unfolding readUInt16LE_def buf_readUInt16LE_def by (rule reader_built_readUIntLE) simp_all

lemma reader_built_readUInt32LE:
  "(\<And>v. reader_built (callback v)) \<Longrightarrow> reader_built (readUInt32LE callback)"
  unfolding readUInt32LE_def buf_readUInt32LE_def by (rule reader_built_readUIntLE) simp_all

lemma take_drop_within:
  "k + m \<le> n \<Longrightarrow> take m (drop (pos + k) buf) = take m (drop k (take n (drop pos buf)))"
  by (simp add: drop_take add.commute min_def)

lemma buf_readUIntLE_within:
  assumes "pos + n \<le> length buf" and "k + m \<le> n"
  shows "buf_readUIntLE m buf (pos + k) = Some (le_value (take m (drop k (take n (drop pos buf)))))"
  using assms by (simp add: buf_readUIntLE_def take_drop_within [of k m n])

lemma buf_readUIntLE_within0:
  assumes "pos + n \<le> length buf" and "m \<le> n"
  shows "buf_readUIntLE m buf pos = Some (le_value (take m (take n (drop pos buf))))"
  using buf_readUIntLE_within [OF assms(1), of 0 m] assms(2) by simp

lemma reader_built_readInt32LE:
  assumes "\<And>v. reader_built (callback v)"
  shows "reader_built (readInt32LE callback)"
  unfolding readInt32LE_def
  by (rule rb_AwaitData [where k = "\<lambda>d. callback (to_int32 (le_value d))"])
    (simp_all add: buf_readInt32LE_def buf_readUInt32LE_def buf_readUIntLE_def assms)

lemma reader_built_readUInt64LE:
  assumes "\<And>v. reader_built (callback v)"
  shows "reader_built (readUInt64LE callback)"
  unfolding readUInt64LE_def
  by (rule rb_AwaitData [where k = "\<lambda>d. callback
        (js_add (js_mul (2 ^ 32) (int (le_value (take 4 (drop 4 (take 8 d))))))
           (int (le_value (take 4 (take 8 d)))))"])
    (simp_all add: buf_readUInt32LE_def buf_readUIntLE_within [where n = 8]
      buf_readUIntLE_within0 [where n = 8] assms)

lemma same_view_doneParsing:
  "same_view s t \<Longrightarrow> same_view (doneParsing tok s) (doneParsing tok t)"
  by (simp add: same_view_def doneParsing_def push_def split: option.splits token.splits)

lemma in_bounds_doneParsing [simp]: "in_bounds (doneParsing t s) = in_bounds s"
  by (simp add: in_bounds_def)

lemma exec_same_view:
  assumes "reader_built p" and "in_bounds s" and "in_bounds t" and "same_view s t" and "\<not> suspended s"
  shows "fst (exec p s) = Returned \<and> fst (exec p t) = Returned
         \<and> in_bounds (snd (exec p s)) \<and> in_bounds (snd (exec p t))
         \<and> same_view (snd (exec p s)) (snd (exec p t))"
  using assms
proof (induction p arbitrary: s t rule: reader_built.induct)
  case rb_Return
  then show ?case by simp
next
  case (rb_CallDone p tok)
  have "same_view (doneParsing tok s) (doneParsing tok t)"
    using rb_CallDone.prems(3) by (rule same_view_doneParsing)
  with rb_CallDone.IH [of "doneParsing tok s" "doneParsing tok t"] rb_CallDone.prems
  show ?case by simp
next
  case (rb_AwaitData n callback k)
  from rb_AwaitData.prems(3) have
    u: "drop (position s) (buffer s) = drop (position t) (buffer t)"
    by (simp add: same_view_def)
  have ls: "length (buffer s) - position s = length (buffer t) - position t"
    using arg_cong [OF u, of length] by simp
  have ws: "position s \<le> length (buffer s)" and wt: "position t \<le> length (buffer t)"
    using rb_AwaitData.prems(1,2) by (simp_all add: in_bounds_def)
  show ?case
  proof (cases "position s + n \<le> length (buffer s)")
    case True
    then have Tt: "position t + n \<le> length (buffer t)"
      using ls ws wt by linarith
    let ?d = "take n (drop (position s) (buffer s))"
    let ?s = "s\<lparr>position := position s + n\<rparr>" and ?t = "t\<lparr>position := position t + n\<rparr>"
    have ld: "length ?d = n" using True by simp
    have cs: "callback (buffer s) (position s) = Advance n (k ?d)"
      by (rule rb_AwaitData.hyps(1) [OF True])
    have ct: "callback (buffer t) (position t) = Advance n (k ?d)"
      using rb_AwaitData.hyps(1) [OF Tt] u by simp
    have "drop n (drop (position s) (buffer s)) = drop n (drop (position t) (buffer t))"
      using u by simp
    then have "drop (position s + n) (buffer s) = drop (position t + n) (buffer t)"
      by (simp add: add.commute)
    then have "same_view ?s ?t"
      using rb_AwaitData.prems(3) by (simp add: same_view_def)
    moreover have "in_bounds ?s" "in_bounds ?t" "\<not> suspended ?s"
      using True Tt rb_AwaitData.prems(4) by (simp_all add: in_bounds_def)
    ultimately show ?thesis
      using rb_AwaitData.IH [OF ld, of ?s ?t] True Tt cs ct by simp
  next
    case False
    then have Ft: "\<not> position t + n \<le> length (buffer t)"
      using ls ws wt by linarith
    have "same_view (suspend (AwaitData n callback) s) (suspend (AwaitData n callback) t)"
      using rb_AwaitData.prems(3) by (simp add: same_view_def suspend_def)
    then show ?thesis
      using False Ft rb_AwaitData.prems(1,2) by (simp add: in_bounds_def suspend_def)
  qed
qed

lemma appended_fields [simp]:
  "buffer (appended s b) = buffer s @ b"
  "position (appended s b) = position s"
  "suspended (appended s b) = suspended s"
  "next (appended s b) = next s"
  "emitted (appended s b) = emitted s"
  "errors (appended s b) = errors s"
  "errorListener (appended s b) = errorListener s"
  "colMetadata (appended s b) = colMetadata s"
  "options (appended s b) = options s"
  by (simp_all add: appended_def)

lemma appended_doneParsing: "appended (doneParsing t s) b = doneParsing t (appended s b)"
  by (simp add: appended_def doneParsing_def push_def split: option.splits token.splits)

lemma exec_appended:
  assumes "reader_built p" and "in_bounds s" and "\<not> suspended s"
  shows "(\<not> suspended (snd (exec p s)) \<longrightarrow>
            exec p (appended s b) = (Returned, appended (snd (exec p s)) b))
         \<and> (suspended (snd (exec p s)) \<longrightarrow>
            (\<exists>q. next (snd (exec p s)) = Some q \<and> reader_built q
               \<and> exec p (appended s b) =
                  exec q (appended ((snd (exec p s))\<lparr>suspended := False, next := next s\<rparr>) b)))"
  using assms
proof (induction p arbitrary: s rule: reader_built.induct)
  case rb_Return
  then show ?case by simp
next
  case (rb_CallDone p tok)
  from rb_CallDone.IH [of "doneParsing tok s"] rb_CallDone.prems
  show ?case by (simp add: appended_doneParsing)
next
  case (rb_AwaitData n callback k)
  have ws: "position s \<le> length (buffer s)" using rb_AwaitData.prems(1) by (simp add: in_bounds_def)
  show ?case
  proof (cases "position s + n \<le> length (buffer s)")
    case True
    then have Te: "position s + n \<le> length (buffer s @ b)" by simp
    let ?d = "take n (drop (position s) (buffer s))"
    let ?s = "s\<lparr>position := position s + n\<rparr>"
    have ld: "length ?d = n" using True by simp
    have cs: "callback (buffer s) (position s) = Advance n (k ?d)"
      by (rule rb_AwaitData.hyps(1) [OF True])
    have td: "take n (drop (position s) (buffer s @ b)) = ?d" using True by simp
    have ce: "callback (buffer s @ b) (position s) = Advance n (k ?d)"
      using rb_AwaitData.hyps(1) [OF Te] unfolding td .
    have e: "appended ?s b = appended s b\<lparr>position := position s + n\<rparr>" by (simp add: appended_def)
    have "in_bounds ?s" "\<not> suspended ?s" using True rb_AwaitData.prems(2) by (simp_all add: in_bounds_def)
    from rb_AwaitData.IH [OF ld this] show ?thesis
      using True Te cs ce e by simp
  next
    case False
    have undo: "(suspend (AwaitData n callback) s)\<lparr>suspended := False, next := next s\<rparr> = s"
      using rb_AwaitData.prems(2) by (cases s) (simp add: suspend_def)
    have "reader_built (AwaitData n callback)"
      by (rule reader_built.rb_AwaitData [where k = k]) (use rb_AwaitData.hyps in auto)
    then show ?thesis using False undo by (simp add: suspend_def [where s = s])
  qed
qed

lemma same_view_refl [simp]: "same_view s s"
  by (simp add: same_view_def)

lemma same_view_sym: "same_view s t \<Longrightarrow> same_view t s"
  by (auto simp: same_view_def)

lemma same_view_trans: "same_view s t \<Longrightarrow> same_view t u \<Longrightarrow> same_view s u"
  by (auto simp: same_view_def)

lemma res_view_refl [simp]: "res_view r r"
  by (simp add: res_view_def)

lemma res_view_trans: "res_view r r' \<Longrightarrow> res_view r' r'' \<Longrightarrow> res_view r r''"
  by (auto simp: res_view_def intro: same_view_trans)

lemma exec_resumable:
  assumes "reader_built p" and "in_bounds s" and "\<not> suspended s"
  shows "fst (exec p s) = Returned \<and> resumable (snd (exec p s))"
  using exec_same_view [OF assms(1,2,2) same_view_refl assms(3)] exec_appended [OF assms, of "[]"]
  by (auto simp: resumable_def)

lemma same_view_head:
  assumes "in_bounds s" and "in_bounds t" and "same_view s t"
  shows "(position s < length (buffer s)) = (position t < length (buffer t))"
    and "position s < length (buffer s) \<Longrightarrow> buffer s ! position s = buffer t ! position t"
proof -
  from assms(3) have u: "drop (position s) (buffer s) = drop (position t) (buffer t)"
    by (simp add: same_view_def)
  have "length (buffer s) - position s = length (buffer t) - position t"
    using arg_cong [OF u, of length] by simp
  then show eq: "(position s < length (buffer s)) = (position t < length (buffer t))"
    by linarith
  assume lt: "position s < length (buffer s)"
  with eq have lt': "position t < length (buffer t)" by simp
  have "buffer s ! position s = hd (drop (position s) (buffer s))"
    using lt by (simp add: hd_drop_conv_nth)
  also have "\<dots> = buffer t ! position t"
    using lt' u by (simp add: hd_drop_conv_nth)
  finally show "buffer s ! position s = buffer t ! position t" .
qed

lemma same_view_step:
  assumes "same_view s t" and "position s < length (buffer s)" and "position t < length (buffer t)"
  shows "same_view (s\<lparr>position := position s + 1\<rparr>) (t\<lparr>position := position t + 1\<rparr>)"
    and "in_bounds (s\<lparr>position := position s + 1\<rparr>)" and "in_bounds (t\<lparr>position := position t + 1\<rparr>)"
proof -
  from assms(1) have u: "drop (position s) (buffer s) = drop (position t) (buffer t)"
    by (simp add: same_view_def)
  then have "drop 1 (drop (position s) (buffer s)) = drop 1 (drop (position t) (buffer t))"
    by simp
  then have "drop (position s + 1) (buffer s) = drop (position t + 1) (buffer t)"
    by (simp add: add.commute)
  then show "same_view (s\<lparr>position := position s + 1\<rparr>) (t\<lparr>position := position t + 1\<rparr>)"
    using assms(1) by (simp add: same_view_def)
  show "in_bounds (s\<lparr>position := position s + 1\<rparr>)" "in_bounds (t\<lparr>position := position t + 1\<rparr>)"
    using assms(2,3) by (simp_all add: in_bounds_def)
qed

lemma parseTokens_same_view:
  assumes "reader_built_registry reg"
  shows "in_bounds s \<Longrightarrow> in_bounds t \<Longrightarrow> same_view s t \<Longrightarrow>
         res_view (parseTokens reg s) (parseTokens reg t)
         \<and> in_bounds (snd (parseTokens reg s)) \<and> in_bounds (snd (parseTokens reg t))"
proof (induction s arbitrary: t rule: parseTokens_induct [where reg = reg])
  case (stop s)
  have "suspended t = suspended s" using stop.prems(3) by (simp add: same_view_def)
  moreover have "(position s < length (buffer s)) = (position t < length (buffer t))"
    by (rule same_view_head(1) [OF stop.prems])
  ultimately have "suspended t \<or> length (buffer t) \<le> position t"
    using stop.hyps by auto
  then show ?case using stop by (simp add: parseTokens_stop res_view_def)
next
  case (dispatch s decoder o2 s2)
  let ?p = "decoder (colMetadata s) (options s)"
  let ?s1 = "s\<lparr>position := position s + 1\<rparr>" and ?t1 = "t\<lparr>position := position t + 1\<rparr>"
  have st: "\<not> suspended t" "colMetadata t = colMetadata s" "options t = options s"
    using dispatch.prems(3) dispatch.hyps(1) by (simp_all add: same_view_def)
  have lt: "position t < length (buffer t)"
    using same_view_head(1) [OF dispatch.prems] dispatch.hyps(2) by simp
  have tag: "buffer t ! position t = buffer s ! position s"
    using same_view_head(2) [OF dispatch.prems dispatch.hyps(2)] by simp
  have rb: "reader_built ?p"
    using assms dispatch.hyps(3) by (auto simp: reader_built_registry_def)
  note step = same_view_step [OF dispatch.prems(3) dispatch.hyps(2) lt]
  have ns1: "\<not> suspended ?s1" using dispatch.hyps(1) by simp
  from exec_same_view [OF rb step(2,3,1) ns1] dispatch.hyps(4)
  have o2: "o2 = Returned" and ft: "fst (exec ?p ?t1) = Returned"
    and w: "in_bounds s2" "in_bounds (snd (exec ?p ?t1))" and sv: "same_view s2 (snd (exec ?p ?t1))"
    by simp_all
  obtain t2 where t2: "exec ?p ?t1 = (Returned, t2)" using ft by (cases "exec ?p ?t1") simp
  have ps: "parseTokens reg s = parseTokens reg s2"
    using dispatch.hyps o2 by (simp add: parseTokens_dispatch [where decoder = decoder])
  have pt: "parseTokens reg t = parseTokens reg t2"
    using st lt tag dispatch.hyps(3) t2 by (simp add: parseTokens_dispatch [where decoder = decoder])
  from dispatch.IH [OF o2 w(1), of t2] w(2) sv t2
  show ?case by (simp add: ps pt)
next
  case (unknown s)
  have st: "\<not> suspended t" "errorListener t = errorListener s" "errors t = errors s"
    using unknown.prems(3) unknown.hyps(1) by (simp_all add: same_view_def)
  have lt: "position t < length (buffer t)"
    using same_view_head(1) [OF unknown.prems] unknown.hyps(2) by simp
  have tag: "buffer t ! position t = buffer s ! position s"
    using same_view_head(2) [OF unknown.prems unknown.hyps(2)] by simp
  note step = same_view_step [OF unknown.prems(3) unknown.hyps(2) lt]
  let ?e = "UnknownType (unat (buffer s ! position s))"
  let ?s1 = "s\<lparr>position := position s + 1, errors := errors s @ [?e]\<rparr>"
  let ?t1 = "t\<lparr>position := position t + 1, errors := errors s @ [?e]\<rparr>"
  show ?case
  proof (cases "errorListener s")
    case True
    have "same_view ?s1 ?t1" "in_bounds ?s1" "in_bounds ?t1"
      using step by (simp_all add: same_view_def in_bounds_def)
    from unknown.IH [OF True this(2,3,1)] show ?thesis
      using unknown.hyps True st lt tag by (simp add: parseTokens_unknown)
  next
    case False
    then show ?thesis
      using unknown.hyps st lt tag step by (simp add: parseTokens_unknown res_view_def)
  qed
qed

lemma parseTokens_resumable:
  assumes "reader_built_registry reg"
  shows "resumable s \<Longrightarrow> resumable (snd (parseTokens reg s))"
proof (induction s rule: parseTokens_induct [where reg = reg])
  case (stop s)
  then show ?case by (simp add: parseTokens_stop)
next
  case (dispatch s decoder o2 s2)
  let ?p = "decoder (colMetadata s) (options s)"
  have rb: "reader_built ?p"
    using assms dispatch.hyps(3) by (auto simp: reader_built_registry_def)
  have "in_bounds (s\<lparr>position := position s + 1\<rparr>)" using dispatch.hyps(2) by (simp add: in_bounds_def)
  from exec_resumable [OF rb this] dispatch.hyps(1,4)
  have o2: "o2 = Returned" and g: "resumable s2" by simp_all
  from dispatch.IH [OF o2 g] show ?case
    using dispatch.hyps o2 by (simp add: parseTokens_dispatch [where decoder = decoder])
next
  case (unknown s)
  show ?case
  proof (cases "errorListener s")
    case True
    have "resumable (s\<lparr>position := position s + 1,
                errors := errors s @ [UnknownType (unat (buffer s ! position s))]\<rparr>)"
      using unknown.hyps(1,2) by (simp add: resumable_def in_bounds_def)
    from unknown.IH [OF True this] show ?thesis
      using unknown.hyps True by (simp add: parseTokens_unknown)
  next
    case False
    then show ?thesis
      using unknown.hyps by (simp add: parseTokens_unknown resumable_def in_bounds_def)
  qed
qed

lemma transform_resume_and_parse: "transform reg (Data x) s = resume_and_parse reg (accumulate x s)"
proof -
  obtain o2 s2 where r: "resume (accumulate x s) = (o2, s2)" by (cases "resume (accumulate x s)")
  show ?thesis
    using r by (cases o2) (auto simp: transform_def resume_and_parse_def then_parse_def parseTokens_stop)
qed

lemma accumulate_append: "accumulate (a @ b) s = appended (accumulate a s) b"
  by (simp add: accumulate_eq appended_def)

lemma resumable_accumulate: "resumable s \<Longrightarrow> resumable (accumulate x s)"
  by (simp add: resumable_def in_bounds_def accumulate_eq)

lemma then_parse_same_view:
  assumes "reader_built_registry reg" and "res_view r r'" and "in_bounds (snd r)" and "in_bounds (snd r')"
  shows "res_view (then_parse reg r) (then_parse reg r')"
proof (cases r; cases r')
  fix o1 s o1' s'
  assume r: "r = (o1, s)" and r': "r' = (o1', s')"
  with assms have o: "o1' = o1" and sv: "same_view s s'" and w: "in_bounds s" "in_bounds s'"
    by (simp_all add: res_view_def)
  show ?thesis
  proof (cases o1)
    case Returned
    then show ?thesis
      using parseTokens_same_view [OF assms(1) w sv] r r' o by (simp add: then_parse_def)
  next
    case (Threw e)
    then show ?thesis using r r' o sv by (simp add: then_parse_def res_view_def)
  qed
qed

lemma resumed_equiv:
  assumes reg: "reader_built_registry reg" and "reader_built q" and "in_bounds t"
    and "suspended t" and "next t = Some q"
  shows "res_view (then_parse reg (exec q (appended (t\<lparr>suspended := False, next := nx\<rparr>) b)))
           (resume_and_parse reg (accumulate b t))"
proof -
  let ?u = "appended (t\<lparr>suspended := False, next := nx\<rparr>) b"
  let ?v = "(accumulate b t)\<lparr>suspended := False\<rparr>"
  have sv: "same_view ?u ?v" "in_bounds ?u" "in_bounds ?v"
    using assms(3) by (auto simp: same_view_def accumulate_eq in_bounds_def)
  have "\<not> suspended ?u" by simp
  from exec_same_view [OF assms(2) sv(2,3,1) this]
  have "res_view (exec q ?u) (exec q ?v)" "in_bounds (snd (exec q ?u))" "in_bounds (snd (exec q ?v))"
    by (simp_all add: res_view_def)
  then have "res_view (then_parse reg (exec q ?u)) (then_parse reg (exec q ?v))"
    by (rule then_parse_same_view [OF reg])
  moreover have "resume (accumulate b t) = exec q ?v"
    using assms(4,5) by (simp add: resume_def accumulate_eq)
  ultimately show ?thesis by (simp add: resume_and_parse_def)
qed

lemma appended_position: "appended (s\<lparr>position := p\<rparr>) b = (appended s b)\<lparr>position := p\<rparr>"
  by (simp add: appended_def)

lemma appended_errors: "appended (s\<lparr>errors := e\<rparr>) b = (appended s b)\<lparr>errors := e\<rparr>"
  by (simp add: appended_def)

lemma parseTokens_appended:
  assumes reg: "reader_built_registry reg"
  shows "in_bounds t \<Longrightarrow> \<not> suspended t \<Longrightarrow>
         res_view (parseTokens reg (appended t b)) (continue_with reg b (parseTokens reg t))"
proof (induction t rule: parseTokens_induct [where reg = reg])
  case (stop t)
  then have full: "position t = length (buffer t)" by (simp add: in_bounds_def)
  have sv: "same_view (appended t b) (accumulate b t)"
    using full by (simp add: same_view_def accumulate_eq)
  have w: "in_bounds (appended t b)" "in_bounds (accumulate b t)" using full by (simp_all add: in_bounds_def accumulate_eq)
  have "resume (accumulate b t) = (Returned, accumulate b t)"
    using stop.prems(2) by (simp add: resume_def accumulate_eq)
  then have "continue_with reg b (parseTokens reg t) = parseTokens reg (accumulate b t)"
    using stop.hyps by (simp add: parseTokens_stop continue_with_def resume_and_parse_def then_parse_def)
  then show ?case using parseTokens_same_view [OF reg w sv] by simp
next
  case (dispatch t decoder o2 t2)
  let ?p = "decoder (colMetadata t) (options t)"
  let ?t1 = "t\<lparr>position := position t + 1\<rparr>"
  have rb: "reader_built ?p"
    using reg dispatch.hyps(3) by (auto simp: reader_built_registry_def)
  have w1: "in_bounds ?t1" and n1: "\<not> suspended ?t1"
    using dispatch.hyps(1,2) by (simp_all add: in_bounds_def)
  from exec_resumable [OF rb w1 n1] dispatch.hyps(4)
  have o2: "o2 = Returned" and g2: "resumable t2" by simp_all
  have pt: "parseTokens reg t = parseTokens reg t2"
    using dispatch.hyps o2 by (simp add: parseTokens_dispatch [where decoder = decoder])
  have "reg (unat (buffer (appended t b) ! position (appended t b))) = Some decoder"
    using dispatch.hyps(2,3) by (simp add: nth_append)
  then have pe: "parseTokens reg (appended t b) = then_parse reg (exec ?p (appended ?t1 b))"
    using dispatch.hyps(1,2)
    by (simp add: parseTokens_dispatch [where decoder = decoder] then_parse_def appended_position
        split: prod.splits outcome.splits)
  show ?case
  proof (cases "suspended t2")
    case False
    with exec_appended [OF rb w1 n1, of b] dispatch.hyps(4)
    have "exec ?p (appended ?t1 b) = (Returned, appended t2 b)" by simp
    then have "parseTokens reg (appended t b) = parseTokens reg (appended t2 b)"
      using pe by (simp add: then_parse_def)
    moreover have "in_bounds t2" using g2 by (simp add: resumable_def)
    ultimately show ?thesis using dispatch.IH [OF o2 _ False] pt by simp
  next
    case True
    with exec_appended [OF rb w1 n1, of b] dispatch.hyps(4)
    obtain q where q: "next t2 = Some q" "reader_built q"
      and e: "exec ?p (appended ?t1 b) = exec q (appended (t2\<lparr>suspended := False, next := next ?t1\<rparr>) b)"
      by auto
    have "in_bounds t2" using g2 by (simp add: resumable_def)
    from resumed_equiv [OF reg q(2) this True q(1), of "next ?t1" b]
    have "res_view (parseTokens reg (appended t b)) (resume_and_parse reg (accumulate b t2))"
      using pe e by simp
    moreover have "parseTokens reg t2 = (Returned, t2)"
      using True by (simp add: parseTokens_stop)
    ultimately show ?thesis using pt by (simp add: continue_with_def)
  qed
next
  case (unknown t)
  let ?e = "UnknownType (unat (buffer t ! position t))"
  let ?t1 = "t\<lparr>position := position t + 1, errors := errors t @ [?e]\<rparr>"
  have tg: "reg (unat (buffer (appended t b) ! position (appended t b))) = None"
    "buffer (appended t b) ! position (appended t b) = buffer t ! position t"
    using unknown.hyps(2,3) by (simp_all add: nth_append)
  have lt: "position (appended t b) < length (buffer (appended t b))" "\<not> suspended (appended t b)"
    using unknown.hyps(1,2) by simp_all
  show ?case
  proof (cases "errorListener t")
    case True
    have e1: "appended ?t1 b = (appended t b)\<lparr>position := position t + 1, errors := errors t @ [?e]\<rparr>"
      by (simp add: appended_def)
    have "in_bounds ?t1" "\<not> suspended ?t1" using unknown.hyps(1,2) by (simp_all add: in_bounds_def)
    from unknown.IH [OF True this] show ?thesis
      using unknown.hyps True parseTokens_unknown [where s = "appended t b" and reg = reg, OF lt(2,1) tg(1)] tg(2)
      by (simp add: parseTokens_unknown appended_position appended_errors)
  next
    case False
    have e1: "(appended t b)\<lparr>position := position t + 1\<rparr> = appended (t\<lparr>position := position t + 1\<rparr>) b"
      by (simp add: appended_def)
    show ?thesis
      using unknown.hyps False parseTokens_unknown [where s = "appended t b" and reg = reg, OF lt(2,1) tg(1)] tg(2)
      by (simp add: parseTokens_unknown continue_with_def appended_position)
  qed
qed

lemma appended_suspended: "appended (s\<lparr>suspended := x\<rparr>) b = (appended s b)\<lparr>suspended := x\<rparr>"
  by (simp add: appended_def)

lemma resume_and_parse_appended:
  assumes reg: "reader_built_registry reg" and "resumable t"
  shows "res_view (resume_and_parse reg (appended t b)) (continue_with reg b (resume_and_parse reg t))"
proof (cases "suspended t")
  case False
  then have "resume_and_parse reg (appended t b) = parseTokens reg (appended t b)" "resume_and_parse reg t = parseTokens reg t"
    by (simp_all add: resume_and_parse_def resume_def then_parse_def)
  moreover have "in_bounds t" using assms(2) by (simp add: resumable_def)
  ultimately show ?thesis using parseTokens_appended [OF reg _ False, of b] by simp
next
  case True
  with assms(2) obtain q where q: "next t = Some q" "reader_built q" and wt: "in_bounds t"
    by (auto simp: resumable_def)
  let ?t0 = "t\<lparr>suspended := False\<rparr>"
  have w0: "in_bounds ?t0" "\<not> suspended ?t0" using wt by (simp_all add: in_bounds_def)
  obtain o1 t1 where ex: "exec q ?t0 = (o1, t1)" by (cases "exec q ?t0")
  from exec_resumable [OF q(2) w0] ex have o1: "o1 = Returned" and g1: "resumable t1" by simp_all
  then have w1: "in_bounds t1" by (simp add: resumable_def)
  have gt: "resume_and_parse reg t = parseTokens reg t1"
    using True q(1) ex o1 by (simp add: resume_and_parse_def resume_def then_parse_def)
  have ge: "resume_and_parse reg (appended t b) = then_parse reg (exec q (appended ?t0 b))"
    using True q(1) by (simp add: resume_and_parse_def resume_def appended_suspended)
  show ?thesis
  proof (cases "suspended t1")
    case False
    with exec_appended [OF q(2) w0, of b] ex
    have "exec q (appended ?t0 b) = (Returned, appended t1 b)" by simp
    then have "resume_and_parse reg (appended t b) = parseTokens reg (appended t1 b)"
      using ge by (simp add: then_parse_def)
    then show ?thesis using parseTokens_appended [OF reg w1 False, of b] gt by simp
  next
    case s1: True
    with exec_appended [OF q(2) w0, of b] ex
    obtain q' where q': "next t1 = Some q'" "reader_built q'"
      and e: "exec q (appended ?t0 b) = exec q' (appended (t1\<lparr>suspended := False, next := next ?t0\<rparr>) b)"
      by auto
    from resumed_equiv [OF reg q'(2) w1 s1 q'(1), of "next ?t0" b]
    have "res_view (resume_and_parse reg (appended t b)) (resume_and_parse reg (accumulate b t1))"
      using ge e by simp
    moreover have "parseTokens reg t1 = (Returned, t1)"
      using s1 by (simp add: parseTokens_stop)
    ultimately show ?thesis using gt by (simp add: continue_with_def)
  qed
qed

lemma transform_append:
  assumes "reader_built_registry reg" and "resumable s"
  shows "res_view (transform reg (Data (a @ b)) s)
           (case transform reg (Data a) s of
              (Returned, s1) \<Rightarrow> transform reg (Data b) s1
            | (Threw e, s1) \<Rightarrow> (Threw e, appended s1 b))"
proof -
  obtain o1 s1 where r: "resume_and_parse reg (accumulate a s) = (o1, s1)" by (cases "resume_and_parse reg (accumulate a s)")
  show ?thesis
    using resume_and_parse_appended [OF assms(1) resumable_accumulate [OF assms(2)], of a b] r
    by (cases o1) (simp_all add: transform_resume_and_parse accumulate_append continue_with_def)
qed

lemma resume_resumable:
  assumes "resumable s"
  shows "fst (resume s) = Returned \<and> resumable (snd (resume s))"
proof (cases "suspended s")
  case False
  with assms show ?thesis by (simp add: resume_def)
next
  case True
  with assms obtain q where q: "next s = Some q" "reader_built q" and w: "in_bounds s"
    by (auto simp: resumable_def)
  have "in_bounds (s\<lparr>suspended := False\<rparr>)" using w by (simp add: in_bounds_def)
  from exec_resumable [OF q(2) this] show ?thesis using True q(1) by (simp add: resume_def)
qed

lemma transform_resumable:
  assumes "reader_built_registry reg" and "resumable s"
  shows "resumable (snd (transform reg (Data x) s))"
proof -
  obtain o1 s1 where r: "resume (accumulate x s) = (o1, s1)" by (cases "resume (accumulate x s)")
  with resume_resumable [OF resumable_accumulate [OF assms(2)], of x]
  have "o1 = Returned" "resumable s1" by simp_all
  then show ?thesis
    using r parseTokens_resumable [OF assms(1), of s1] by (simp add: transform_resume_and_parse resume_and_parse_def then_parse_def)
qed

lemma res_view_same_output: "res_view r r' \<Longrightarrow> same_output r r'"
  by (simp add: res_view_def same_view_def same_output_def)

lemma feed_concat:
  assumes reg: "reader_built_registry reg"
  shows "resumable s \<Longrightarrow>
         same_output (feed reg (map Data (c # cs)) s) (transform reg (Data (concat (c # cs))) s)"
proof (induction cs arbitrary: c s)
  case Nil
  show ?case by (cases "transform reg (Data c) s" rule: prod.exhaust [case_names Pair])
      (auto simp: same_output_def split: outcome.splits)
next
  case (Cons c' cs)
  obtain o1 s1 where t: "transform reg (Data c) s = (o1, s1)" by (cases "transform reg (Data c) s")
  have g1: "resumable s1" using transform_resumable [OF reg Cons.prems, of c] t by simp
  note split = transform_append [OF reg Cons.prems, of c "concat (c' # cs)"]
  show ?case
  proof (cases o1)
    case Returned
    from Cons.IH [OF g1, of c']
    have "same_output (feed reg (map Data (c' # cs)) s1)
            (transform reg (Data (concat (c' # cs))) s1)" .
    moreover have "same_output (transform reg (Data (concat (c' # cs))) s1)
            (transform reg (Data (concat (c # c' # cs))) s)"
      using split t Returned by (auto simp: same_output_def dest!: res_view_same_output)
    ultimately show ?thesis
      using t Returned by (auto simp: same_output_def)
  next
    case (Threw e)
    then show ?thesis
      using split t by (auto simp: same_output_def dest!: res_view_same_output)
  qed
qed

lemma reader_built_example_columns: "reader_built (example_columns cm acc)"
  by (induction cm arbitrary: acc)
    (auto intro!: reader_built.intros(1,2) reader_built_readUInt16LE)

lemma reader_built_example_registry: "reader_built_registry example_registry"
  by (auto simp: reader_built_registry_def example_registry_def example_colmetadata_def
      example_row_def example_done_def reader_built_example_columns split: if_splits
      intro!: reader_built.intros(1,2) reader_built_readUInt16LE reader_built_readUInt32LE
        reader_built_readBuffer)

lemmas eval_simps = new_parser_def transform_def accumulate_def resume_def buf_slice_from_def
  buf_slice_def parseTokens.simps example_registry_def example_colmetadata_def example_row_def
  example_done_def readUInt16LE_def readUInt32LE_def readBuffer_def buf_readUInt8_def
  buf_readUInt16LE_def buf_readUInt32LE_def buf_readUIntLE_def suspend_def doneParsing_def
  push_def emit_error_def Let_def

lemma latest_snoc:
  "latest cm (ts @ [t]) = (case t of COLMETADATA cols \<Rightarrow> cols | _ \<Rightarrow> latest cm ts)"
  by (induction cm ts rule: latest.induct) (simp_all split: token.splits)

lemma doneParsing_current:
  "context_current cm0 s \<Longrightarrow> context_current cm0 (doneParsing tok s)"
  by (simp add: context_current_def doneParsing_def push_def latest_snoc
      split: option.splits token.splits)

lemma exec_current:
  "context_current cm0 s \<Longrightarrow> context_current cm0 (snd (exec p s))"
proof (induction p arbitrary: s rule: prog_induct)
  case (CallDone t p)
  from CallDone.IH [OF doneParsing_current [OF CallDone.prems]] show ?case by simp
next
  case (Advance n p)
  have "context_current cm0 (s\<lparr>position := position s + n\<rparr>)"
    using Advance.prems by (simp add: context_current_def)
  from Advance.IH [OF this] show ?case by simp
next
  case (AwaitData n callback)
  then show ?case by (simp add: context_current_def suspend_def)
qed simp_all

lemma parseTokens_current:
  "context_current cm0 s \<Longrightarrow> context_current cm0 (snd (parseTokens reg s))"
proof (induction s rule: parseTokens_induct [where reg = reg])
  case (stop s)
  then show ?case by (simp add: parseTokens_stop)
next
  case (dispatch s decoder o2 s2)
  have "context_current cm0 (s\<lparr>position := position s + 1\<rparr>)"
    using dispatch.prems by (simp add: context_current_def)
  from exec_current [OF this, of "decoder (colMetadata s) (options s)"] dispatch.hyps(4)
  have c2: "context_current cm0 s2" by simp
  show ?case
  proof (cases o2)
    case Returned
    with dispatch.IH [OF Returned c2] dispatch.hyps show ?thesis
      by (simp add: parseTokens_dispatch [where decoder = decoder])
  next
    case (Threw e)
    with c2 dispatch.hyps show ?thesis
      by (simp add: parseTokens_dispatch [where decoder = decoder])
  qed
next
  case (unknown s)
  show ?case
  proof (cases "errorListener s")
    case True
    have "context_current cm0 (s\<lparr>position := position s + 1,
        errors := errors s @ [UnknownType (unat (buffer s ! position s))]\<rparr>)"
      using unknown.prems by (simp add: context_current_def)
    from unknown.IH [OF True this] show ?thesis
      using unknown.hyps True by (simp add: parseTokens_unknown)
  next
    case False
    then show ?thesis
      using unknown.hyps unknown.prems by (simp add: parseTokens_unknown context_current_def)
  qed
qed

lemma transform_current:
  assumes "context_current cm0 s"
  shows "context_current cm0 (snd (transform reg c s))"
proof (cases c)
  case EndOfMessageMarker
  then show ?thesis
    using assms by (simp add: transform_def push_def context_current_def latest_snoc)
next
  case (Data x)
  have a: "context_current cm0 (accumulate x s)"
    using assms by (simp add: context_current_def accumulate_eq)
  obtain o1 s1 where r: "resume (accumulate x s) = (o1, s1)" by (cases "resume (accumulate x s)")
  have "context_current cm0 (snd (resume (accumulate x s)))"
    using a exec_current [of cm0 "(accumulate x s)\<lparr>suspended := False\<rparr>"]
    by (auto simp: resume_def context_current_def Let_def split: option.splits)
  then have "context_current cm0 s1" using r by simp
  then show ?thesis
    using Data r parseTokens_current [of cm0 s1 reg] by (cases o1) (simp_all add: transform_def)
qed

lemma feed_current:
  "context_current cm0 s \<Longrightarrow> context_current cm0 (snd (feed reg cs s))"
proof (induction cs arbitrary: s)
  case Nil
  then show ?case by simp
next
  case (Cons c cs)
  obtain o1 s1 where t: "transform reg c s = (o1, s1)" by (cases "transform reg c s")
  have "context_current cm0 s1" using transform_current [OF Cons.prems, of reg c] t by simp
  from Cons.IH [OF this] show ?case using t \<open>context_current cm0 s1\<close> by (cases o1) simp_all
qed

lemma resumable_new_parser: "resumable (new_parser cm opts listener)"
  by (simp add: resumable_def in_bounds_def new_parser_def)

lemma buf_index_within:
  assumes "pos + n \<le> length buf" and "k < n"
  shows "buf_index buf (pos + k) = Some (take n (drop pos buf) ! k)"
  using assms by (simp add: buf_index_def)

lemma reader_built_readInt64LE:
  assumes "\<And>v. reader_built (callback v)"
  shows "reader_built (readInt64LE callback)"
  unfolding readInt64LE_def
  by (rule rb_AwaitData [where k = "\<lambda>d. callback
        (js_add (js_mul (2 ^ 32) (to_int32 (le_value (take 4 (drop 4 (take 8 d))))))
           (js_mul (if js_bit7_set (Some (take 8 d ! 4)) then 1 else - 1)
              (int (le_value (take 4 (take 8 d))))))"])
    (simp_all add: buf_readInt32LE_def buf_readUInt32LE_def buf_readUIntLE_within [where n = 8]
      buf_readUIntLE_within0 [where n = 8] buf_index_within [where n = 8] Let_def assms)

lemma reader_built_readUNumeric64LE:
  "(\<And>v. reader_built (callback v)) \<Longrightarrow> reader_built (readUNumeric64LE callback)"
  using reader_built_readUInt64LE [of callback] by (simp add: readUInt64LE_eq)

lemma reader_built_readUInt24LE:
  assumes "\<And>v. reader_built (callback v)"
  shows "reader_built (readUInt24LE callback)"
  unfolding readUInt24LE_def
  by (rule rb_AwaitData [where k = "\<lambda>d. callback
        (js_or_shl16 (le_value (take 2 (take 3 d))) (le_value (take 1 (drop 2 (take 3 d)))))"])
    (simp_all add: buf_readUInt16LE_def buf_readUInt8_def buf_readUIntLE_within [where n = 3]
      buf_readUIntLE_within0 [where n = 3] assms del: add_2_eq_Suc')

lemma reader_built_readUInt40LE:
  assumes "\<And>v. reader_built (callback v)"
  shows "reader_built (readUInt40LE callback)"
  unfolding readUInt40LE_def
  by (rule rb_AwaitData [where k = "\<lambda>d. callback
        (js_add (js_mul 0x100000000 (int (le_value (take 1 (drop 4 (take 5 d))))))
           (int (le_value (take 4 (take 5 d)))))"])
    (simp_all add: buf_readUInt32LE_def buf_readUInt8_def buf_readUIntLE_within [where n = 5]
      buf_readUIntLE_within0 [where n = 5] assms)

lemma reader_built_readUNumeric96LE:
  assumes "\<And>v. reader_built (callback v)"
  shows "reader_built (readUNumeric96LE callback)"
  unfolding readUNumeric96LE_def
  by (rule rb_AwaitData [where k = "\<lambda>d. callback
        (js_add (js_add (int (le_value (take 4 (take 12 d))))
             (js_mul 0x100000000 (int (le_value (take 4 (drop 4 (take 12 d)))))))
           (js_mul (js_mul 0x100000000 0x100000000) (int (le_value (take 4 (drop 8 (take 12 d)))))))"])
    (simp_all add: buf_readUInt32LE_def buf_readUIntLE_within [where n = 12]
      buf_readUIntLE_within0 [where n = 12] assms)

lemma reader_built_readUNumeric128LE:
  assumes "\<And>v. reader_built (callback v)"
  shows "reader_built (readUNumeric128LE callback)"
  unfolding readUNumeric128LE_def
  by (rule rb_AwaitData [where k = "\<lambda>d. callback
        (js_add
           (js_add (js_add (int (le_value (take 4 (take 16 d))))
               (js_mul 0x100000000 (int (le_value (take 4 (drop 4 (take 16 d)))))))
             (js_mul (js_mul 0x100000000 0x100000000) (int (le_value (take 4 (drop 8 (take 16 d)))))))
           (js_mul (js_mul (js_mul 0x100000000 0x100000000) 0x100000000)
              (int (le_value (take 4 (drop 12 (take 16 d)))))))"])
    (simp_all add: buf_readUInt32LE_def buf_readUIntLE_within [where n = 16]
      buf_readUIntLE_within0 [where n = 16] assms)

lemma reader_built_readBVarChar:
  "(\<And>v. reader_built (callback v)) \<Longrightarrow> reader_built (readBVarChar callback)"
  unfolding readBVarChar_def by (intro reader_built_readUInt8 reader_built_readBuffer)

lemma reader_built_readUsVarChar:
  "(\<And>v. reader_built (callback v)) \<Longrightarrow> reader_built (readUsVarChar callback)"
  unfolding readUsVarChar_def by (intro reader_built_readUInt16LE reader_built_readBuffer)

lemma reader_built_readBVarByte:
  "(\<And>v. reader_built (callback v)) \<Longrightarrow> reader_built (readBVarByte callback)"
  unfolding readBVarByte_def by (intro reader_built_readUInt8 reader_built_readBuffer)

lemma reader_built_readUsVarByte:
  "(\<And>v. reader_built (callback v)) \<Longrightarrow> reader_built (readUsVarByte callback)"
  unfolding readUsVarByte_def by (intro reader_built_readUInt16LE reader_built_readBuffer)

section \<open>Chunking\<close>

text \<open>
  Claim C1. Let every decoder of the registry be built from the readers. Then, for a new
  parser and any byte sequence cut into one or more chunks at any places, writing the
  chunks one after the other pushes the same tokens, in the same order, as writing the
  whole sequence as one chunk; both runs also end the same way (normally, or with the
  same exception), deliver the same 'error' events and leave the same column metadata.
  This holds for every byte sequence, the valid ones among them.
\<close>

theorem chunked_feed_same_tokens:
  assumes "reader_built_registry reg" and "chunks \<noteq> []"
  shows "emitted (snd (feed reg (map Data chunks) (new_parser cm opts listener))) =
         emitted (snd (feed reg [Data (concat chunks)] (new_parser cm opts listener)))
       \<and> fst (feed reg (map Data chunks) (new_parser cm opts listener)) =
         fst (feed reg [Data (concat chunks)] (new_parser cm opts listener))
       \<and> errors (snd (feed reg (map Data chunks) (new_parser cm opts listener))) =
         errors (snd (feed reg [Data (concat chunks)] (new_parser cm opts listener)))
       \<and> colMetadata (snd (feed reg (map Data chunks) (new_parser cm opts listener))) =
         colMetadata (snd (feed reg [Data (concat chunks)] (new_parser cm opts listener)))"
proof -
  obtain c cs where chunks: "chunks = c # cs" using assms(2) by (cases chunks) auto
  have "feed reg [Data (concat chunks)] (new_parser cm opts listener) =
      transform reg (Data (concat chunks)) (new_parser cm opts listener)"
    by (cases "transform reg (Data (concat chunks)) (new_parser cm opts listener)")
      (auto split: outcome.splits)
  then show ?thesis
    using feed_concat [OF assms(1) resumable_new_parser, of c cs cm opts listener]
    unfolding chunks by (simp add: same_output_def)
qed

theorem chunked_feed_same_tokens_witness:
  "emitted (snd (feed example_registry
       (map Data [ [0x81, 0x02], [0x00, 0x26, 0x38, 0xD1, 0x05],
                  [0x00, 0x06, 0x00, 0xFD, 0x10, 0x00, 0xC1], [0x00, 0x01, 0x00, 0x00, 0x00]])
       (new_parser [] () False))) =
     [COLMETADATA [38, 56], ROW [5, 6], DONE [16, 193, 1]]
   \<and> emitted (snd (feed example_registry
       [Data [0x81, 0x02, 0x00, 0x26, 0x38, 0xD1, 0x05, 0x00, 0x06, 0x00,
              0xFD, 0x10, 0x00, 0xC1, 0x00, 0x01, 0x00, 0x00, 0x00]]
       (new_parser [] () False))) =
     [COLMETADATA [38, 56], ROW [5, 6], DONE [16, 193, 1]]"
proof -
  have "emitted (snd (feed example_registry
       [Data [0x81, 0x02, 0x00, 0x26, 0x38, 0xD1, 0x05, 0x00, 0x06, 0x00,
              0xFD, 0x10, 0x00, 0xC1, 0x00, 0x01, 0x00, 0x00, 0x00]]
       (new_parser [] () False))) =
     [COLMETADATA [38, 56], ROW [5, 6], DONE [16, 193, 1]]"
    by (simp add: eval_simps)
  then show ?thesis
    using chunked_feed_same_tokens [OF reader_built_example_registry,
        of "[ [0x81, 0x02], [0x00, 0x26, 0x38, 0xD1, 0x05],
             [0x00, 0x06, 0x00, 0xFD, 0x10, 0x00, 0xC1], [0x00, 0x01, 0x00, 0x00, 0x00]]"
        "[]" "()" False]
    by simp
qed

section \<open>Hand-overs\<close>

declare parseTokens_handovers.simps [simp del]

lemma handovers_current_append:
  "handovers_current cm (a @ b) =
     (handovers_current cm a \<and> handovers_current (context_after cm a) b)"
  by (induction cm a rule: handovers_current.induct) auto

lemma context_after_append:
  "context_after cm (a @ b) = context_after (context_after cm a) b"
  by (induction cm a rule: context_after.induct) auto

lemma handovers_ok_none:
  "emitted s' = emitted s \<Longrightarrow> colMetadata s' = colMetadata s \<Longrightarrow> handovers_ok s [] s'"
  by (simp add: handovers_ok_def)

lemma handovers_ok_append:
  "handovers_ok s a t \<Longrightarrow> handovers_ok t b u \<Longrightarrow> handovers_ok s (a @ b) u"
  by (simp add: handovers_ok_def handovers_current_append context_after_append)

lemma handovers_ok_from:
  "emitted t = emitted s \<Longrightarrow> colMetadata t = colMetadata s \<Longrightarrow>
   handovers_ok t hs u \<Longrightarrow> handovers_ok s hs u"
  by (simp add: handovers_ok_def)

lemma doneParsing_handovers_ok:
  "handovers_ok s (doneParsing_handovers tok s) (doneParsing tok s)"
  by (simp add: handovers_ok_def doneParsing_handovers_def push_handovers_def doneParsing_def
      push_def split: option.splits token.splits)

lemma exec_handovers_ok: "handovers_ok s (exec_handovers p s) (snd (exec p s))"
proof (induction p arbitrary: s rule: prog_induct)
  case (CallDone t p)
  show ?case
    using handovers_ok_append [OF doneParsing_handovers_ok [of s t] CallDone [of "doneParsing t s"]]
    by simp
next
  case (Advance n p)
  have "handovers_ok s (exec_handovers p (s\<lparr>position := position s + n\<rparr>))
      (snd (exec p (s\<lparr>position := position s + n\<rparr>)))"
    by (rule handovers_ok_from [OF _ _ Advance]) simp_all
  then show ?case by simp
next
  case (AwaitData n callback)
  then show ?case by (simp add: handovers_ok_none suspend_def)
qed (simp_all add: handovers_ok_none)

lemma parseTokens_handovers_stop:
  "suspended s \<or> length (buffer s) \<le> position s \<Longrightarrow> parseTokens_handovers reg s = []"
  by (subst parseTokens_handovers.simps) auto

lemma parseTokens_handovers_dispatch:
  assumes "\<not> suspended s" and "position s < length (buffer s)"
    and "reg (unat (buffer s ! position s)) = Some decoder"
  shows "parseTokens_handovers reg s =
           exec_handovers (decoder (colMetadata s) (options s)) (s\<lparr>position := position s + 1\<rparr>) @
           (case exec (decoder (colMetadata s) (options s)) (s\<lparr>position := position s + 1\<rparr>) of
              (Returned, s2) \<Rightarrow> parseTokens_handovers reg s2
            | (Threw e, s2) \<Rightarrow> [])"
  using assms by (subst parseTokens_handovers.simps) (simp add: buf_readUInt8_in_range Let_def)

lemma parseTokens_handovers_unknown:
  assumes "\<not> suspended s" and "position s < length (buffer s)"
    and "reg (unat (buffer s ! position s)) = None"
  shows "parseTokens_handovers reg s =
           (if errorListener s
            then parseTokens_handovers reg
                   (s\<lparr>position := position s + 1,
                      errors := errors s @ [UnknownType (unat (buffer s ! position s))]\<rparr>)
            else [])"
  using assms
  by (subst parseTokens_handovers.simps) (simp add: buf_readUInt8_in_range Let_def emit_error_def)

lemma parseTokens_handovers_ok:
  "handovers_ok s (parseTokens_handovers reg s) (snd (parseTokens reg s))"
proof (induction s rule: parseTokens_induct [where reg = reg])
  case (stop s)
  then show ?case
    by (simp add: parseTokens_stop parseTokens_handovers_stop handovers_ok_none)
next
  case (dispatch s decoder o2 s2)
  let ?p = "decoder (colMetadata s) (options s)"
  let ?s1 = "s\<lparr>position := position s + 1\<rparr>"
  have "handovers_ok ?s1 (exec_handovers ?p ?s1) s2"
    using exec_handovers_ok [of ?s1 ?p] dispatch.hyps(4) by simp
  then have first: "handovers_ok s (exec_handovers ?p ?s1) s2"
    by (rule handovers_ok_from [rotated 2]) simp_all
  show ?case
  proof (cases o2)
    case Returned
    from handovers_ok_append [OF first dispatch.IH [OF Returned]] show ?thesis
      using dispatch.hyps Returned
      by (simp add: parseTokens_dispatch [where decoder = decoder]
          parseTokens_handovers_dispatch [where decoder = decoder])
  next
    case (Threw e)
    with first show ?thesis
      using dispatch.hyps
      by (simp add: parseTokens_dispatch [where decoder = decoder]
          parseTokens_handovers_dispatch [where decoder = decoder])
  qed
next
  case (unknown s)
  show ?case
  proof (cases "errorListener s")
    case True
    have "handovers_ok s
        (parseTokens_handovers reg (s\<lparr>position := position s + 1,
           errors := errors s @ [UnknownType (unat (buffer s ! position s))]\<rparr>))
        (snd (parseTokens reg (s\<lparr>position := position s + 1,
           errors := errors s @ [UnknownType (unat (buffer s ! position s))]\<rparr>)))"
      by (rule handovers_ok_from [OF _ _ unknown.IH [OF True]]) simp_all
    then show ?thesis
      using unknown.hyps True by (simp add: parseTokens_unknown parseTokens_handovers_unknown)
  next
    case False
    then show ?thesis
      using unknown.hyps
      by (simp add: parseTokens_unknown parseTokens_handovers_unknown handovers_ok_none)
  qed
qed

lemma resume_handovers_ok: "handovers_ok s (resume_handovers s) (snd (resume s))"
proof (cases "suspended s")
  case False
  then show ?thesis by (simp add: resume_def resume_handovers_def handovers_ok_none)
next
  case True
  show ?thesis
  proof (cases "next s")
    case None
    with True show ?thesis by (simp add: resume_def resume_handovers_def handovers_ok_none)
  next
    case (Some k)
    have "handovers_ok s (exec_handovers k (s\<lparr>suspended := False\<rparr>))
        (snd (exec k (s\<lparr>suspended := False\<rparr>)))"
      by (rule handovers_ok_from [OF _ _ exec_handovers_ok]) simp_all
    with True Some show ?thesis by (simp add: resume_def resume_handovers_def)
  qed
qed

lemma transform_handovers_ok:
  "handovers_ok s (transform_handovers reg c s) (snd (transform reg c s))"
proof (cases c)
  case EndOfMessageMarker
  then show ?thesis
    by (simp add: transform_def transform_handovers_def push_def push_handovers_def
        handovers_ok_def)
next
  case (Data x)
  obtain o1 s1 where r: "resume (accumulate x s) = (o1, s1)" by (cases "resume (accumulate x s)")
  have "handovers_ok (accumulate x s) (resume_handovers (accumulate x s)) s1"
    using resume_handovers_ok [of "accumulate x s"] r by simp
  then have first: "handovers_ok s (resume_handovers (accumulate x s)) s1"
    by (rule handovers_ok_from [rotated 2]) (simp_all add: accumulate_eq)
  show ?thesis
  proof (cases o1)
    case (Threw e)
    with first Data r show ?thesis by (simp add: transform_def transform_handovers_def)
  next
    case Returned
    show ?thesis
    proof (cases "suspended s1")
      case True
      with first Data r Returned show ?thesis
        by (simp add: transform_def transform_handovers_def)
    next
      case False
      from handovers_ok_append [OF first parseTokens_handovers_ok [of s1 reg]]
      show ?thesis using Data r Returned False
        by (simp add: transform_def transform_handovers_def)
    qed
  qed
qed

lemma feed_handovers_ok:
  "handovers_ok s (feed_handovers reg cs s) (snd (feed reg cs s))"
proof (induction cs arbitrary: s)
  case Nil
  show ?case by (simp add: handovers_ok_none)
next
  case (Cons c cs)
  obtain o1 s1 where t: "transform reg c s = (o1, s1)" by (cases "transform reg c s")
  have first: "handovers_ok s (transform_handovers reg c s) s1"
    using transform_handovers_ok [of s reg c] t by simp
  show ?case
  proof (cases o1)
    case Returned
    from handovers_ok_append [OF first Cons [of s1]] show ?thesis using t Returned by simp
  next
    case (Threw e)
    with first t show ?thesis by simp
  qed
qed

lemmas handovers_eval_simps = push_handovers_def doneParsing_handovers_def resume_handovers_def
  transform_handovers_def parseTokens_handovers.simps

text \<open>Had \<open>push\<close> come before the replacement, the consumer would have been shown the old
  context with a COLMETADATA token.\<close>

lemma push_before_replacement_differs:
  "colMetadata s \<noteq> cols \<Longrightarrow>
   push_handovers (COLMETADATA cols) s \<noteq> doneParsing_handovers (Some (COLMETADATA cols)) s"
  by (simp add: push_handovers_def doneParsing_handovers_def)

section \<open>Column metadata\<close>

text \<open>
  Claim C9. The completion callback, given a COLMETADATA token, replaces the column
  metadata by the token's columns and then pushes the token: the consumer is handed the
  token on a parser whose context is already the token's columns. This holds of every
  hand-over of every callback body and of every sequence of chunks written to the parser:
  the tokens handed over are the tokens emitted, and each is handed over with the context
  current at that moment, a COLMETADATA token with its own columns. As a consequence the
  context is always the columns of the last COLMETADATA token pushed (or the initial
  context if there is none): this is kept by every callback body, and by every sequence
  of chunks written to the parser; and the dispatch loop, at a registered tag, runs the
  decoder on exactly that context.
\<close>

theorem colMetadata_follows_tokens:
  "doneParsing (Some (COLMETADATA cols)) s = push (COLMETADATA cols) (s\<lparr>colMetadata := cols\<rparr>)
   \<and> doneParsing_handovers (Some (COLMETADATA cols)) s = [(COLMETADATA cols, cols)]
   \<and> emitted (snd (exec p s)) = emitted s @ map fst (exec_handovers p s)
   \<and> handovers_current (colMetadata s) (exec_handovers p s)
   \<and> emitted (snd (feed reg chunks s)) = emitted s @ map fst (feed_handovers reg chunks s)
   \<and> handovers_current (colMetadata s) (feed_handovers reg chunks s)
   \<and> (colMetadata s = latest cm0 (emitted s) \<longrightarrow>
        colMetadata (snd (exec p s)) = latest cm0 (emitted (snd (exec p s)))
        \<and> colMetadata (snd (feed reg chunks s)) = latest cm0 (emitted (snd (feed reg chunks s)))
        \<and> (\<not> suspended s \<and> position s < length (buffer s)
             \<and> reg (unat (buffer s ! position s)) = Some decoder \<longrightarrow>
            parseTokens reg s =
              (case exec (decoder (latest cm0 (emitted s)) (options s))
                      (s\<lparr>position := position s + 1\<rparr>) of
                 (Returned, s2) \<Rightarrow> parseTokens reg s2
               | (Threw e, s2) \<Rightarrow> (Threw e, s2))))"
proof -
  have "doneParsing_handovers (Some (COLMETADATA cols)) s = [(COLMETADATA cols, cols)]"
    by (simp add: doneParsing_handovers_def push_handovers_def)
  moreover have "emitted (snd (exec p s)) = emitted s @ map fst (exec_handovers p s)"
    "handovers_current (colMetadata s) (exec_handovers p s)"
    using exec_handovers_ok [of s p] by (simp_all add: handovers_ok_def)
  moreover have "emitted (snd (feed reg chunks s)) = emitted s @ map fst (feed_handovers reg chunks s)"
    "handovers_current (colMetadata s) (feed_handovers reg chunks s)"
    using feed_handovers_ok [of s reg chunks] by (simp_all add: handovers_ok_def)
  ultimately show ?thesis
    using exec_current [of cm0 s p] feed_current [of cm0 s reg chunks]
      parseTokens_dispatch [of s reg decoder]
    by (auto simp: context_current_def doneParsing_def)
qed

theorem colMetadata_follows_tokens_witness:
  "emitted (snd (parseTokens example_registry
       ((new_parser [7] () False)\<lparr>buffer := [0xD1, 0x05, 0x00]\<rparr>))) = [ROW [5]]
   \<and> emitted (snd (feed example_registry
       [Data [0x81, 0x02, 0x00, 0x26], Data [0x38, 0xD1, 0x05, 0x00, 0x06, 0x00]]
       ((new_parser [7] () False)\<lparr>buffer := [0xD1, 0x05, 0x00]\<rparr>))) =
       [ROW [5], COLMETADATA [38, 56], ROW [5, 6]]
   \<and> feed_handovers example_registry
       [Data [0x81, 0x02, 0x00, 0x26], Data [0x38, 0xD1, 0x05, 0x00, 0x06, 0x00]]
       ((new_parser [7] () False)\<lparr>buffer := [0xD1, 0x05, 0x00]\<rparr>) =
       [(ROW [5], [7]), (COLMETADATA [38, 56], [38, 56]), (ROW [5, 6], [38, 56])]
   \<and> colMetadata (snd (feed example_registry
       [Data [0x81, 0x02, 0x00, 0x26], Data [0x38, 0xD1, 0x05, 0x00, 0x06, 0x00]]
       ((new_parser [7] () False)\<lparr>buffer := [0xD1, 0x05, 0x00]\<rparr>))) = [38, 56]
   \<and> latest [7] [ROW [5], COLMETADATA [38, 56], ROW [5, 6 :: nat]] = [38, 56 :: nat]"
  using colMetadata_follows_tokens [where cols = "[38, 56]"
      and s = "(new_parser [7] () False)\<lparr>buffer := [0xD1, 0x05, 0x00]\<rparr>" and ?cm0.0 = "[7]"
      and p = Return and reg = example_registry
      and chunks = "[Data [0x81, 0x02, 0x00, 0x26], Data [0x38, 0xD1, 0x05, 0x00, 0x06, 0x00]]"
      and decoder = example_row]
  by (simp add: eval_simps handovers_eval_simps)

section \<open>Unknown tags\<close>

text \<open>
  Claim C2 says that after a tag with no registered decoder nothing more is dispatched
  from the buffer and no further token is pushed. The loop of \<open>parseTokens\<close> calls
  \<open>emit('error', ...)\<close> and goes on with the next byte: with an 'error' listener on the
  stream, the chunk 00 FD 10 00 C1 00 01 00 00 00 delivers the error for tag 0 and then
  the byte FD is read as a tag and a DONE token is pushed.
\<close>

theorem unknown_tag_then_dispatch:
  "transform example_registry
     (Data [0x00, 0xFD, 0x10, 0x00, 0xC1, 0x00, 0x01, 0x00, 0x00, 0x00])
     (new_parser [] () True) =
   (Returned, (new_parser [] () True)
      \<lparr>buffer := [0x00, 0xFD, 0x10, 0x00, 0xC1, 0x00, 0x01, 0x00, 0x00, 0x00],
        position := 10,
        emitted := [DONE [16, 193, 1]],
        errors := [UnknownType 0]\<rparr>)"
  by (simp add: eval_simps)

text \<open>Without a listener \<open>emit\<close> throws, which is what ends the loop.\<close>

lemma unknown_tag_without_listener:
  "transform example_registry
     (Data [0x00, 0xFD, 0x10, 0x00, 0xC1, 0x00, 0x01, 0x00, 0x00, 0x00])
     (new_parser [] () False) =
   (Threw (UnknownType 0), (new_parser [] () False)
      \<lparr>buffer := [0x00, 0xFD, 0x10, 0x00, 0xC1, 0x00, 0x01, 0x00, 0x00, 0x00],
        position := 1\<rparr>)"
  by (simp add: eval_simps)

end
